theory Spec2Isabelle
  imports Main "HOL-Library.Word" "HOL-Library.Multiset"
begin

section \<open>Byte strings, tuples and descriptors\<close>

text \<open>
  A Go byte slice is a list of bytes; a slice that may be \<open>nil\<close> is an option of one
  (\<open>None\<close> is \<open>nil\<close>). The packed tuple type \<open>val.Tuple\<close> is used by the range code only
  through \<open>GetField\<close>, so a tuple is represented by what \<open>GetField\<close> returns at each index;
  a \<open>nil\<close> field is the SQL NULL.
\<close>

type_synonym byte = "8 word"
type_synonym bytes = "byte list"
type_synonym Tuple = "nat \<Rightarrow> bytes option"

definition GetField :: "Tuple \<Rightarrow> nat \<Rightarrow> bytes option" where
  "GetField t i = t i"

record Type =
  Enc :: nat
  Nullable :: bool

text \<open>
  The tuple descriptor \<open>val.TupleDesc\<close>: its list of field types, and its two comparison
  operations, which the range code receives from the descriptor and which are therefore
  fields of the record. \<open>CompareField v i t\<close> compares the value \<open>v\<close> with field \<open>i\<close> of
  the tuple \<open>t\<close>; \<open>CompareValues a b typ\<close> compares two encoded values of type \<open>typ\<close>.
  Both return a Go \<open>int\<close> of which only the sign is used.
\<close>

record TupleDesc =
  Types :: "Type list"
  CompareField :: "bytes option \<Rightarrow> nat \<Rightarrow> Tuple \<Rightarrow> int"
  CompareValues :: "bytes option \<Rightarrow> bytes option \<Rightarrow> Type \<Rightarrow> int"

section \<open>Ranges\<close>

record RangeCut =
  Value :: "bytes option"
  Inclusive :: bool
  Null :: bool

record Range =
  Start :: "RangeCut list"
  Stop :: "RangeCut list"
  Desc :: TupleDesc

definition nonBinding :: "RangeCut \<Rightarrow> bool" where
  "nonBinding c = (Value c = None \<and> Null c = False)"

text \<open>
  \<open>Range.AboveStart\<close>: the loop over \<open>r.Start\<close>, with the running index \<open>i\<close>. Each
  \<open>continue\<close> is the recursive call, each \<open>return\<close> ends the loop.
\<close>

fun aboveStartFrom :: "TupleDesc \<Rightarrow> Tuple \<Rightarrow> nat \<Rightarrow> RangeCut list \<Rightarrow> bool" where
  "aboveStartFrom d t i [] = True"
| "aboveStartFrom d t i (c # cuts) =
     (if nonBinding c then aboveStartFrom d t (i + 1) cuts
      else let v = GetField t i in
        if Null c \<or> v = None then Null c \<and> v = None
        else let cmp = CompareField d (Value c) i t in
          if cmp < 0 \<or> (Inclusive c \<and> cmp = 0) then aboveStartFrom d t (i + 1) cuts
          else False)"

definition AboveStart :: "Range \<Rightarrow> Tuple \<Rightarrow> bool" where
  "AboveStart r t = aboveStartFrom (Desc r) t 0 (Start r)"

text \<open>\<open>Range.BelowStop\<close>: the same loop over \<open>r.Stop\<close>, with the comparison reversed.\<close>

fun belowStopFrom :: "TupleDesc \<Rightarrow> Tuple \<Rightarrow> nat \<Rightarrow> RangeCut list \<Rightarrow> bool" where
  "belowStopFrom d t i [] = True"
| "belowStopFrom d t i (c # cuts) =
     (if nonBinding c then belowStopFrom d t (i + 1) cuts
      else let v = GetField t i in
        if Null c \<or> v = None then Null c \<and> v = None
        else let cmp = CompareField d (Value c) i t in
          if cmp > 0 \<or> (Inclusive c \<and> cmp = 0) then belowStopFrom d t (i + 1) cuts
          else False)"

definition BelowStop :: "Range \<Rightarrow> Tuple \<Rightarrow> bool" where
  "BelowStop r t = belowStopFrom (Desc r) t 0 (Stop r)"

text \<open>
  \<open>RangeCut.less\<close>. After the two guards both values are non-nil; \<open>CompareValues\<close> is
  applied to them as they are.
\<close>

definition cut_less :: "RangeCut \<Rightarrow> RangeCut \<Rightarrow> Type \<Rightarrow> (bytes option \<Rightarrow> bytes option \<Rightarrow> Type \<Rightarrow> int) \<Rightarrow> bool" where
  "cut_less c other typ tc =
     (if Null c \<or> Null other then \<not> Null c \<and> Null other
      else if nonBinding c \<or> nonBinding other then False
      else let cmp = tc (Value c) (Value other) typ in
        if cmp = 0 then \<not> Inclusive c \<or> \<not> Inclusive other
        else cmp < 0)"


subsection \<open>Ordering, overlap and merge of ranges\<close>

text \<open>
  A Go panic (a failed \<open>assertTrue\<close>, an index out of range) is the value \<open>None\<close>.

  \<open>Range.less\<close>: after the assertion the two \<open>Start\<close> vectors have the same length, so
  \<open>other.Start[i]\<close> is in range; \<open>r.Desc.Types[i]\<close> need not be.
\<close>

fun range_less_from :: "TupleDesc \<Rightarrow> nat \<Rightarrow> RangeCut list \<Rightarrow> RangeCut list \<Rightarrow> bool option" where
  "range_less_from d i [] others = Some False"
| "range_less_from d i (left # rest) others =
     (if i < length others \<and> i < length (Types d) then
        if cut_less left (others ! i) (Types d ! i) (CompareValues d) then Some True
        else range_less_from d (i + 1) rest others
      else None)"

definition Range_less :: "Range \<Rightarrow> Range \<Rightarrow> bool option" where
  "Range_less r other =
     (if length (Start r) \<noteq> length (Start other) then None
      else range_less_from (Desc r) 0 (Start r) (Start other))"

text \<open>\<open>Range.overlaps\<close>, on column 0 only. The second pair of cuts is read only when the
  first test has not already answered.\<close>

definition overlaps :: "Range \<Rightarrow> Range \<Rightarrow> bool option" where
  "overlaps r other =
     (case Types (Desc r) of
        [] \<Rightarrow> None
      | typ # _ \<Rightarrow>
          (case (Stop r, Start other) of
             (rstop # _, ostart # _) \<Rightarrow>
               if cut_less rstop ostart typ (CompareValues (Desc r)) then Some False
               else (case (Stop other, Start r) of
                  (ostop # _, rstart # _) \<Rightarrow>
                    if cut_less ostop rstart typ (CompareValues (Desc r)) then Some False
                    else Some True
                | _ \<Rightarrow> None)
           | _ \<Rightarrow> None))"

text \<open>Modelled from the spec: \<open>TupleDesc.Equals\<close>, which lies outside the sources at
  hand. A descriptor carries per-field type tags; two descriptors are equal when their
  type tags are.\<close>

definition Desc_Equals :: "TupleDesc \<Rightarrow> TupleDesc \<Rightarrow> bool" where
  "Desc_Equals d d' = (Types d = Types d')"

text \<open>The two loops of \<open>Range.merge\<close>: the lesser of each pair of \<open>Start\<close> cuts, the
  greater of each pair of \<open>Stop\<close> cuts, a non-binding cut where either one is.\<close>

fun merge_lower :: "Type list \<Rightarrow> (bytes option \<Rightarrow> bytes option \<Rightarrow> Type \<Rightarrow> int) \<Rightarrow> nat \<Rightarrow>
    RangeCut list \<Rightarrow> RangeCut list \<Rightarrow> RangeCut list option" where
  "merge_lower types tc i [] [] = Some []"
| "merge_lower types tc i (left # ls) (right # rs) =
     (if nonBinding left \<or> nonBinding right then
        map_option ((#) \<lparr>Value = None, Inclusive = False, Null = False\<rparr>)
          (merge_lower types tc (i + 1) ls rs)
      else if i < length types then
        map_option ((#) (if cut_less right left (types ! i) tc then right else left))
          (merge_lower types tc (i + 1) ls rs)
      else None)"
| "merge_lower types tc i _ _ = None"

fun merge_upper :: "Type list \<Rightarrow> (bytes option \<Rightarrow> bytes option \<Rightarrow> Type \<Rightarrow> int) \<Rightarrow> nat \<Rightarrow>
    RangeCut list \<Rightarrow> RangeCut list \<Rightarrow> RangeCut list option" where
  "merge_upper types tc i [] [] = Some []"
| "merge_upper types tc i (left # ls) (right # rs) =
     (if nonBinding left \<or> nonBinding right then
        map_option ((#) \<lparr>Value = None, Inclusive = False, Null = False\<rparr>)
          (merge_upper types tc (i + 1) ls rs)
      else if i < length types then
        map_option ((#) (if cut_less right left (types ! i) tc then left else right))
          (merge_upper types tc (i + 1) ls rs)
      else None)"
| "merge_upper types tc i _ _ = None"

definition merge :: "Range \<Rightarrow> Range \<Rightarrow> Range option" where
  "merge r other =
     (if \<not> Desc_Equals (Desc r) (Desc other) then None
      else if length (Start r) \<noteq> length (Start other) then None
      else if length (Stop r) \<noteq> length (Stop other) then None
      else
        (case merge_lower (Types (Desc r)) (CompareValues (Desc r)) 0 (Start r) (Start other) of
           None \<Rightarrow> None
         | Some lower \<Rightarrow>
            (case merge_upper (Types (Desc r)) (CompareValues (Desc r)) 0 (Stop r) (Stop other) of
               None \<Rightarrow> None
             | Some upper \<Rightarrow> Some \<lparr>Start = lower, Stop = upper, Desc = Desc other\<rparr>)))"

text \<open>
  \<open>SortRanges\<close> hands the slice and \<open>Range.less\<close> to \<open>sort.Slice\<close> of the Go standard
  library, which is a parameter here: a function from a comparison that may panic and a
  list to the sorted list, or to a panic.
\<close>

type_synonym sortSlice = "(Range \<Rightarrow> Range \<Rightarrow> bool option) \<Rightarrow> Range list \<Rightarrow> Range list option"

definition SortRanges :: "sortSlice \<Rightarrow> Range list \<Rightarrow> Range list option" where
  "SortRanges srt ranges = srt Range_less ranges"

text \<open>The loop of \<open>MergeOverlappingRanges\<close> over \<open>ranges[1:]\<close>, with the slice \<open>merged\<close>
  and the accumulator \<open>acc\<close>; the append after the loop is the base case.\<close>

fun merge_loop :: "Range list \<Rightarrow> Range \<Rightarrow> Range list \<Rightarrow> Range list option" where
  "merge_loop merged acc [] = Some (merged @ [acc])"
| "merge_loop merged acc (rng # rest) =
     (case overlaps acc rng of
        None \<Rightarrow> None
      | Some True \<Rightarrow>
          (case merge acc rng of
             None \<Rightarrow> None
           | Some acc' \<Rightarrow> merge_loop merged acc' rest)
      | Some False \<Rightarrow> merge_loop (merged @ [acc]) rng rest)"

definition MergeOverlappingRanges :: "sortSlice \<Rightarrow> Range list \<Rightarrow> Range list option" where
  "MergeOverlappingRanges srt ranges =
     (if length ranges \<le> 1 then Some ranges
      else
        (case SortRanges srt ranges of
           None \<Rightarrow> None
         | Some [] \<Rightarrow> None
         | Some (acc # rest) \<Rightarrow> merge_loop [] acc rest))"

text \<open>
  The insertion sort that \<open>sort.Slice\<close> runs on a short slice: each element in turn moves
  left while it is less than its left neighbour. The sorted prefix is kept reversed, its
  last element first.
\<close>

fun insert_left :: "('a \<Rightarrow> 'a \<Rightarrow> bool option) \<Rightarrow> 'a \<Rightarrow> 'a list \<Rightarrow> 'a list option" where
  "insert_left lt x [] = Some [x]"
| "insert_left lt x (y # ys) =
     (case lt x y of
        None \<Rightarrow> None
      | Some True \<Rightarrow> map_option ((#) y) (insert_left lt x ys)
      | Some False \<Rightarrow> Some (x # y # ys))"

fun insertion_loop :: "('a \<Rightarrow> 'a \<Rightarrow> bool option) \<Rightarrow> 'a list \<Rightarrow> 'a list \<Rightarrow> 'a list option" where
  "insertion_loop lt pre [] = Some (rev pre)"
| "insertion_loop lt pre (x # xs) =
     (case insert_left lt x pre of
        None \<Rightarrow> None
      | Some pre' \<Rightarrow> insertion_loop lt pre' xs)"

definition insertionSort :: "('a \<Rightarrow> 'a \<Rightarrow> bool option) \<Rightarrow> 'a list \<Rightarrow> 'a list option" where
  "insertionSort lt xs = insertion_loop lt [] xs"

subsection \<open>Range constructors\<close>

definition inclusiveBound :: "Tuple \<Rightarrow> TupleDesc \<Rightarrow> RangeCut list" where
  "inclusiveBound tup desc =
     map (\<lambda>i. \<lparr>Value = GetField tup i, Inclusive = True, Null = False\<rparr>)
       [0 ..< length (Types desc)]"

text \<open>\<open>exclusiveBound\<close> writes to index \<open>len(cut)-1\<close>, which is \<open>-1\<close> for a descriptor
  without columns: a panic.\<close>

definition exclusiveBound :: "Tuple \<Rightarrow> TupleDesc \<Rightarrow> RangeCut list option" where
  "exclusiveBound tup desc =
     (let cut = inclusiveBound tup desc in
      if cut = [] then None
      else Some (cut[length cut - 1 := (cut ! (length cut - 1))\<lparr>Inclusive := False\<rparr>]))"

text \<open>A bound vector that a constructor leaves out is \<open>nil\<close>, the empty list.\<close>

definition GreaterRange :: "Tuple \<Rightarrow> TupleDesc \<Rightarrow> Range option" where
  "GreaterRange start desc =
     (case exclusiveBound start desc of None \<Rightarrow> None
      | Some lo \<Rightarrow> Some \<lparr>Start = lo, Stop = [], Desc = desc\<rparr>)"

definition GreaterOrEqualRange :: "Tuple \<Rightarrow> TupleDesc \<Rightarrow> Range option" where
  "GreaterOrEqualRange start desc =
     Some \<lparr>Start = inclusiveBound start desc, Stop = [], Desc = desc\<rparr>"

definition LesserRange :: "Tuple \<Rightarrow> TupleDesc \<Rightarrow> Range option" where
  "LesserRange stop desc =
     (case exclusiveBound stop desc of None \<Rightarrow> None
      | Some hi \<Rightarrow> Some \<lparr>Start = [], Stop = hi, Desc = desc\<rparr>)"

definition LesserOrEqualRange :: "Tuple \<Rightarrow> TupleDesc \<Rightarrow> Range option" where
  "LesserOrEqualRange stop desc =
     Some \<lparr>Start = [], Stop = inclusiveBound stop desc, Desc = desc\<rparr>"

definition OpenRange :: "Tuple \<Rightarrow> Tuple \<Rightarrow> TupleDesc \<Rightarrow> Range option" where
  "OpenRange start stop desc =
     (case exclusiveBound start desc of None \<Rightarrow> None
      | Some lo \<Rightarrow>
         (case exclusiveBound stop desc of None \<Rightarrow> None
          | Some hi \<Rightarrow> Some \<lparr>Start = lo, Stop = hi, Desc = desc\<rparr>))"

definition OpenStartRange :: "Tuple \<Rightarrow> Tuple \<Rightarrow> TupleDesc \<Rightarrow> Range option" where
  "OpenStartRange start stop desc =
     (case exclusiveBound start desc of None \<Rightarrow> None
      | Some lo \<Rightarrow> Some \<lparr>Start = lo, Stop = inclusiveBound stop desc, Desc = desc\<rparr>)"

definition OpenStopRange :: "Tuple \<Rightarrow> Tuple \<Rightarrow> TupleDesc \<Rightarrow> Range option" where
  "OpenStopRange start stop desc =
     (case exclusiveBound stop desc of None \<Rightarrow> None
      | Some hi \<Rightarrow> Some \<lparr>Start = inclusiveBound start desc, Stop = hi, Desc = desc\<rparr>)"

definition ClosedRange :: "Tuple \<Rightarrow> Tuple \<Rightarrow> TupleDesc \<Rightarrow> Range option" where
  "ClosedRange start stop desc =
     Some \<lparr>Start = inclusiveBound start desc, Stop = inclusiveBound stop desc, Desc = desc\<rparr>"

text \<open>The inclusivity flags of the two bound vectors of a range, column by column.\<close>

definition inclusivity :: "Range \<Rightarrow> bool list \<times> bool list" where
  "inclusivity r = (map Inclusive (Start r), map Inclusive (Stop r))"

subsection \<open>Single-column closed intervals\<close>

text \<open>
  The ranges for which merging is exact: one column, both cuts inclusive value cuts, the
  start not above the stop, under a comparator that is a total preorder and a
  \<open>CompareField\<close> that compares with the field of the tuple.
\<close>

definition inclusive_value_cut :: "RangeCut \<Rightarrow> bool" where
  "inclusive_value_cut c = (Value c \<noteq> None \<and> Inclusive c \<and> Null c = False)"

definition compare0 :: "TupleDesc \<Rightarrow> bytes option \<Rightarrow> bytes option \<Rightarrow> int" where
  "compare0 d a b = CompareValues d a b (Types d ! 0)"

definition closed_interval :: "TupleDesc \<Rightarrow> Range \<Rightarrow> bool" where
  "closed_interval d r =
     (Desc r = d \<and>
      (case (Start r, Stop r) of
         ([s], [e]) \<Rightarrow>
           inclusive_value_cut s \<and> inclusive_value_cut e \<and> compare0 d (Value s) (Value e) \<le> 0
       | _ \<Rightarrow> False))"

definition total_preorder :: "('a \<Rightarrow> 'a \<Rightarrow> int) \<Rightarrow> bool" where
  "total_preorder cmp =
     ((\<forall>a b. (cmp a b < 0) = (0 < cmp b a)) \<and>
      (\<forall>a b c. cmp a b \<le> 0 \<and> cmp b c \<le> 0 \<longrightarrow> cmp a c \<le> 0))"

definition compares_field0 :: "TupleDesc \<Rightarrow> bool" where
  "compares_field0 d = (\<forall>v t. CompareField d v 0 t = compare0 d v (GetField t 0))"

definition admits :: "Range \<Rightarrow> Tuple \<Rightarrow> bool" where
  "admits r t = (AboveStart r t \<and> BelowStop r t)"

text \<open>The two values of a single-column range: of its first \<open>Start\<close> cut and of its
  first \<open>Stop\<close> cut.\<close>

definition lo :: "Range \<Rightarrow> bytes option" where
  "lo r = Value (hd (Start r))"

definition hi :: "Range \<Rightarrow> bytes option" where
  "hi r = Value (hd (Stop r))"

subsection \<open>A descriptor that compares bytewise\<close>

text \<open>
  \<open>bytes.Compare\<close> of the Go standard library, the comparison behind
  \<open>lexicographic.Compare\<close>: lexicographic on the bytes, a proper prefix first. A \<open>nil\<close>
  slice compares as the empty one.
\<close>

fun bytesCompare :: "bytes \<Rightarrow> bytes \<Rightarrow> int" where
  "bytesCompare [] [] = 0"
| "bytesCompare [] (b # bs) = -1"
| "bytesCompare (a # as) [] = 1"
| "bytesCompare (a # as) (b # bs) =
     (if a < b then -1 else if b < a then 1 else bytesCompare as bs)"

definition sliceBytes :: "bytes option \<Rightarrow> bytes" where
  "sliceBytes v = (case v of None \<Rightarrow> [] | Some bs \<Rightarrow> bs)"

text \<open>A descriptor over the given types whose comparator is \<open>bytes.Compare\<close> at every
  type, and whose \<open>CompareField\<close> compares with the field that \<open>GetField\<close> returns. It
  serves as the concrete descriptor of the examples.\<close>

definition bytewiseDesc :: "Type list \<Rightarrow> TupleDesc" where
  "bytewiseDesc types =
     \<lparr>Types = types,
      CompareField = (\<lambda>v i t. bytesCompare (sliceBytes v) (sliceBytes (GetField t i))),
      CompareValues = (\<lambda>a b typ. bytesCompare (sliceBytes a) (sliceBytes b))\<rparr>"

definition tupleOf :: "bytes option list \<Rightarrow> Tuple" where
  "tupleOf fs = (\<lambda>i. if i < length fs then fs ! i else None)"

subsection \<open>Membership, column by column\<close>

text \<open>
  The reading of a range as a predicate on tuples, one column at a time. In each phase a
  column either lets the tuple through to the next column (\<open>None\<close>) or decides the phase
  (\<open>Some b\<close>): a non-binding cut never decides; a Null cut decides, and accepts exactly the
  NULL field; a value cut rejects the NULL field, rejects a field on the wrong side of the
  value, and otherwise lets the tuple through.
\<close>

definition start_column :: "TupleDesc \<Rightarrow> Tuple \<Rightarrow> nat \<Rightarrow> RangeCut \<Rightarrow> bool option" where
  "start_column d t i c =
     (if nonBinding c then None
      else if Null c then Some (GetField t i = None)
      else if GetField t i = None then Some False
      else if CompareField d (Value c) i t < 0 then None
      else if Inclusive c \<and> CompareField d (Value c) i t = 0 then None
      else Some False)"

definition stop_column :: "TupleDesc \<Rightarrow> Tuple \<Rightarrow> nat \<Rightarrow> RangeCut \<Rightarrow> bool option" where
  "stop_column d t i c =
     (if nonBinding c then None
      else if Null c then Some (GetField t i = None)
      else if GetField t i = None then Some False
      else if CompareField d (Value c) i t > 0 then None
      else if Inclusive c \<and> CompareField d (Value c) i t = 0 then None
      else Some False)"

text \<open>The first column that decides gives the result of the phase; if none does, the
  tuple is accepted.\<close>

definition first_decision :: "bool option list \<Rightarrow> bool" where
  "first_decision os = (case List.map_filter id os of [] \<Rightarrow> True | b # _ \<Rightarrow> b)"

definition columns_from :: "(nat \<Rightarrow> RangeCut \<Rightarrow> bool option) \<Rightarrow> nat \<Rightarrow> RangeCut list \<Rightarrow> bool option list" where
  "columns_from f i cuts = map (\<lambda>(j, c). f j c) (zip [i ..< i + length cuts] cuts)"

definition admits_by_columns :: "Range \<Rightarrow> Tuple \<Rightarrow> bool" where
  "admits_by_columns r t =
     (first_decision (columns_from (start_column (Desc r) t) 0 (Start r)) \<and>
      first_decision (columns_from (stop_column (Desc r) t) 0 (Stop r)))"

subsection \<open>Example ranges\<close>

definition byteType :: Type where
  "byteType = \<lparr>Enc = 0, Nullable = False\<rparr>"

definition valueCut :: "byte \<Rightarrow> bool \<Rightarrow> RangeCut" where
  "valueCut b incl = \<lparr>Value = Some [b], Inclusive = incl, Null = False\<rparr>"

text \<open>The one-column range from \<open>a\<close> to \<open>b\<close>, both inclusive.\<close>

definition interval1 :: "byte \<Rightarrow> byte \<Rightarrow> Range" where
  "interval1 a b =
     \<lparr>Start = [valueCut a True], Stop = [valueCut b True], Desc = bytewiseDesc [byteType]\<rparr>"

text \<open>The two-column range with the given inclusive start and stop values.\<close>

definition box2 :: "byte \<times> byte \<Rightarrow> byte \<times> byte \<Rightarrow> Range" where
  "box2 a b =
     \<lparr>Start = [valueCut (fst a) True, valueCut (snd a) True],
      Stop = [valueCut (fst b) True, valueCut (snd b) True],
      Desc = bytewiseDesc [byteType, byteType]\<rparr>"

section \<open>Spatial index ranges\<close>
















section \<open>The address-map node builder\<close>

text \<open>
  \<open>addrMapBuilder\<close>: the items are byte slices (\<open>tree.Item\<close>), the subtree counts are
  \<open>uint64\<close> (\<open>tree.SubtreeCounts\<close>), \<open>size\<close> and \<open>level\<close> are Go \<open>int\<close>s.
\<close>

text \<open>The field \<open>values\<close> is written \<open>values_nb\<close>.\<close>

record addrMapBuilder =
  keys :: "bytes list"
  values_nb :: "bytes list"
  size :: int
  level :: int
  subtrees :: "64 word list"

definition newAddrMapBuilder :: "int \<Rightarrow> addrMapBuilder" where
  "newAddrMapBuilder lvl = \<lparr>keys = [], values_nb = [], size = 0, level = lvl, subtrees = []\<rparr>"

definition reset :: "addrMapBuilder \<Rightarrow> addrMapBuilder" where
  "reset nb = nb\<lparr>keys := [], values_nb := [], size := 0, subtrees := []\<rparr>"

definition StartNode :: "addrMapBuilder \<Rightarrow> addrMapBuilder" where
  "StartNode nb = reset nb"

text \<open>\<open>tree.MaxVectorOffset\<close> is a constant outside the sources at hand, a parameter.\<close>

definition HasCapacity :: "int \<Rightarrow> addrMapBuilder \<Rightarrow> bytes \<Rightarrow> bytes \<Rightarrow> bool" where
  "HasCapacity MaxVectorOffset nb key val =
     (let sum = size nb + int (length key) + int (length val) in sum \<le> MaxVectorOffset)"

definition AddItems :: "addrMapBuilder \<Rightarrow> bytes \<Rightarrow> bytes \<Rightarrow> 64 word \<Rightarrow> addrMapBuilder" where
  "AddItems nb key val subtree =
     nb\<lparr>keys := keys nb @ [key],
        values_nb := values_nb nb @ [val],
        size := size nb + int (length key) + int (length val),
        subtrees := subtrees nb @ [subtree]\<rparr>"

definition Count :: "addrMapBuilder \<Rightarrow> nat" where
  "Count nb = length (keys nb)"

text \<open>A run of \<open>AddItems\<close> calls, one for each triple of key, value and subtree count.\<close>

fun addAll :: "addrMapBuilder \<Rightarrow> (bytes \<times> bytes \<times> 64 word) list \<Rightarrow> addrMapBuilder" where
  "addAll nb [] = nb"
| "addAll nb ((key, val, subtree) # items) = addAll (AddItems nb key val subtree) items"

text \<open>
  Modelled from the spec: \<open>SubtreeCounts.Sum\<close> and \<open>writeCountArray\<close>, which lie outside
  the sources at hand. The sum is the \<open>uint64\<close> sum of the counts, which wraps around; the
  count array is one varint for each count, in the unsigned base-128 encoding of Go's
  \<open>binary.PutUvarint\<close>: seven bits to a byte, the low bits first, the high bit of a byte
  set when another byte follows.
\<close>

text \<open>Modelled from the spec: \<open>SubtreeCounts.Sum\<close>, the sum of the subtree counts.\<close>

definition Sum :: "64 word list \<Rightarrow> 64 word" where
  "Sum sc = foldl (+) 0 sc"

text \<open>Modelled from the spec: one varint.\<close>

function putUvarint :: "nat \<Rightarrow> bytes" where
  "putUvarint n = (if n < 128 then [of_nat n] else of_nat (n mod 128 + 128) # putUvarint (n div 128))"
  by pat_completeness auto
termination
  by (relation "measure id") auto

declare putUvarint.simps [simp del]

text \<open>Modelled from the spec: \<open>writeCountArray\<close>, one varint for each count.\<close>

definition writeCountArray :: "64 word list \<Rightarrow> bytes" where
  "writeCountArray counts = concat (map (\<lambda>c. putUvarint (unat c)) counts)"

text \<open>
  Reading the count array back: \<open>m\<close> is the weight of the next seven bits and \<open>acc\<close> the
  value read so far of the varint in progress (\<open>m = 1\<close> between two varints). An array that
  ends inside a varint does not decode.
\<close>

fun readCounts :: "nat \<Rightarrow> nat \<Rightarrow> bytes \<Rightarrow> 64 word list option" where
  "readCounts m acc [] = (if m = 1 then Some [] else None)"
| "readCounts m acc (b # bs) =
     (if unat b < 128 then map_option ((#) (of_nat (acc + unat b * m))) (readCounts 1 0 bs)
      else readCounts (m * 128) (acc + (unat b - 128) * m) bs)"

definition decodeCountArray :: "bytes \<Rightarrow> 64 word list option" where
  "decodeCountArray bs = readCounts 1 0 bs"

text \<open>
  The node that \<open>Build\<close> emits, as the fields that \<open>tree.NodeFromBytes\<close> reads back from
  the serialised message: the key items and the items of the address array (the
  concatenated bytes and their offsets are represented by the lists of items), the
  subtree counts as serialised (empty where the field is not written), the tree count and
  the tree level.
\<close>

record Node =
  keyItems :: "bytes list"
  addressArray :: "bytes list"
  subtreeCounts :: bytes
  treeCount :: "64 word"
  treeLevel :: "8 word"

definition nodeCount :: "Node \<Rightarrow> nat" where
  "nodeCount nd = length (keyItems nd)"

text \<open>\<open>Build\<close> returns the node and leaves the builder reset.\<close>

definition Build :: "addrMapBuilder \<Rightarrow> Node \<times> addrMapBuilder" where
  "Build nb =
     (let node =
        (if level nb > 0 then
           \<lparr>keyItems = keys nb, addressArray = values_nb nb,
            subtreeCounts = writeCountArray (subtrees nb),
            treeCount = Sum (subtrees nb),
            treeLevel = word_of_int (level nb)\<rparr>
         else
           \<lparr>keyItems = keys nb, addressArray = values_nb nb,
            subtreeCounts = [],
            treeCount = of_nat (length (keys nb)),
            treeLevel = word_of_int (level nb)\<rparr>)
      in (node, reset nb))"

text \<open>The invariant of a node: a leaf counts its keys; an internal node has one subtree
  count for each key, and its tree count is their sum in \<open>uint64\<close>.\<close>

definition treeCountInvariant :: "Node \<Rightarrow> bool" where
  "treeCountInvariant nd =
     (if treeLevel nd = 0 then treeCount nd = of_nat (nodeCount nd)
      else (case decodeCountArray (subtreeCounts nd) of
              None \<Rightarrow> False
            | Some counts \<Rightarrow>
                length counts = nodeCount nd \<and>
                treeCount nd = sum_list counts \<and>
                unat (treeCount nd) = sum_list (map unat counts) mod 2 ^ 64))"

text \<open>An example triple: a one-byte key, a 20-byte address, a subtree count.\<close>

definition item :: "nat \<Rightarrow> 64 word \<Rightarrow> bytes \<times> bytes \<times> 64 word" where
  "item k c = ([of_nat k], replicate 20 (of_nat k), c)"

section \<open>The map chunk cache\<close>

text \<open>
  A chunk is a byte slice paired with its 20-byte hash. The implementation of
  \<open>mapChunkCache\<close> lies outside the sources at hand; only its test is among them.
\<close>

type_synonym Hash = bytes

record Chunk =
  chunkHash :: Hash
  chunkData :: bytes

text \<open>
  Modelled from the spec: the cache \<open>mapChunkCache\<close> and its five operations. The cache
  holds the chunks by hash and the set of chunks pending flush, both maps from a hash to
  its chunk. \<open>PutChunk\<close> inserts a single chunk and returns true iff the chunk was new, in
  which case it is also added to \<open>toFlush\<close>; \<open>Put\<close> inserts many chunks, each newly
  inserted one also added to \<open>toFlush\<close>; \<open>Get\<close> returns the subset present; \<open>Has\<close> returns
  the subset not present; \<open>GetAndClearChunksToFlush\<close> returns all chunks pending flush
  and clears the pending set.
\<close>

record mapChunkCache =
  hashToChunk :: "Hash \<rightharpoonup> Chunk"
  toFlush :: "Hash \<rightharpoonup> Chunk"

text \<open>Modelled from the spec: the empty cache.\<close>

definition newMapChunkCache :: mapChunkCache where
  "newMapChunkCache = \<lparr>hashToChunk = Map.empty, toFlush = Map.empty\<rparr>"

text \<open>Modelled from the spec: \<open>PutChunk(chunk)\<close> inserts a single chunk; true iff the
  chunk was new, in which case it is also added to \<open>toFlush\<close>.\<close>

definition PutChunk :: "mapChunkCache \<Rightarrow> Chunk \<Rightarrow> bool \<times> mapChunkCache" where
  "PutChunk mcc ch =
     (case hashToChunk mcc (chunkHash ch) of
        Some _ \<Rightarrow> (False, mcc)
      | None \<Rightarrow>
          (True, mcc\<lparr>hashToChunk := (hashToChunk mcc)(chunkHash ch \<mapsto> ch),
                     toFlush := (toFlush mcc)(chunkHash ch \<mapsto> ch)\<rparr>))"

text \<open>Modelled from the spec: \<open>Put(chunks[])\<close> inserts many chunks; each newly inserted
  chunk is also added to \<open>toFlush\<close>.\<close>

fun Put :: "mapChunkCache \<Rightarrow> Chunk list \<Rightarrow> mapChunkCache" where
  "Put mcc [] = mcc"
| "Put mcc (ch # chs) = Put (snd (PutChunk mcc ch)) chs"

text \<open>Modelled from the spec: \<open>Get(hashes)\<close> returns the subset present.\<close>

definition Get :: "mapChunkCache \<Rightarrow> Hash set \<Rightarrow> (Hash \<rightharpoonup> Chunk)" where
  "Get mcc hashes = (\<lambda>h. if h \<in> hashes then hashToChunk mcc h else None)"

text \<open>Modelled from the spec: \<open>Has(hashes)\<close> returns the subset not present.\<close>

definition Has :: "mapChunkCache \<Rightarrow> Hash set \<Rightarrow> Hash set" where
  "Has mcc hashes = {h \<in> hashes. hashToChunk mcc h = None}"

text \<open>Modelled from the spec: \<open>GetAndClearChunksToFlush()\<close> returns all chunks pending
  flush and clears the pending set.\<close>

definition GetAndClearChunksToFlush :: "mapChunkCache \<Rightarrow> (Hash \<rightharpoonup> Chunk) \<times> mapChunkCache" where
  "GetAndClearChunksToFlush mcc = (toFlush mcc, mcc\<lparr>toFlush := Map.empty\<rparr>)"

text \<open>An example chunk with a one-byte payload; its hash is the payload repeated.\<close>

definition chunkOf :: "byte \<Rightarrow> Chunk" where
  "chunkOf b = \<lparr>chunkHash = replicate 20 b, chunkData = [b]\<rparr>"

section \<open>The address map\<close>

text \<open>\<open>lexicographic.Compare\<close> is \<open>bytes.Compare\<close> on the two keys.\<close>

definition lexicographic_Compare :: "bytes \<Rightarrow> bytes \<Rightarrow> int" where
  "lexicographic_Compare left right = bytesCompare left right"

text \<open>
  Modelled from the spec: the hash, a 20-byte value, whose package lies outside the
  sources at hand. \<open>hash.New\<close> makes a hash from a slice of 20 bytes and panics on a
  slice of any other length (\<open>None\<close>); the zero value of a \<open>hash.Hash\<close>, with which the
  named result \<open>addr\<close> of \<open>AddressMap.Get\<close> starts, is 20 zero bytes.
\<close>

definition hash_New :: "bytes \<Rightarrow> Hash option" where
  "hash_New a = (if length a = 20 then Some a else None)"

definition zeroHash :: Hash where
  "zeroHash = replicate 20 0"

datatype storeError = Corrupt | IO | Cancelled

text \<open>
  Modelled from the spec: \<open>orderedTree.get\<close>, which lies outside the sources at hand. The
  tree is represented by its leaf entries in key order, and by the error, if any, with
  which the node store fails while the tree is descended. \<open>get\<close> descends from the root
  and, at the leaf, finds the value if the key matches exactly under the ordering of the
  tree; an error of the store is returned as it is. What \<open>get\<close> returns here is that
  error, or the pair of arguments of its one call of the callback: the key found and its
  value, or a \<open>nil\<close> key and a \<open>nil\<close> value when no key matches, which is what the guard
  \<open>n != nil\<close> of the callback in \<open>AddressMap.Get\<close> tests.
\<close>

record orderedTree =
  entries :: "(bytes \<times> bytes) list"
  readFailure :: "storeError option"

text \<open>Modelled from the spec: \<open>orderedTree.get\<close>, by what it returns or passes to its
  callback.\<close>

definition tree_get :: "orderedTree \<Rightarrow> bytes \<Rightarrow> storeError + (bytes option \<times> bytes option)" where
  "tree_get tr query =
     (case readFailure tr of
        Some e \<Rightarrow> Inl e
      | None \<Rightarrow>
         (case List.find (\<lambda>kv. lexicographic_Compare (fst kv) query = 0) (entries tr) of
            Some kv \<Rightarrow> Inr (Some (fst kv), Some (snd kv))
          | None \<Rightarrow> Inr (None, None)))"

record AddressMap =
  addresses :: orderedTree

text \<open>
  \<open>AddressMap.Get\<close>: the named result \<open>addr\<close> starts as the zero hash; the callback sets
  it only when the key it is given is not \<open>nil\<close>, and always returns \<open>nil\<close>; \<open>err\<close> is what
  \<open>get\<close> returns. The result is the pair of \<open>addr\<close> and \<open>err\<close>, or \<open>None\<close> for the panic
  of \<open>hash.New\<close>.
\<close>

definition AddressMap_Get :: "AddressMap \<Rightarrow> bytes \<Rightarrow> (Hash \<times> storeError option) option" where
  "AddressMap_Get c name =
     (case tree_get (addresses c) name of
        Inl e \<Rightarrow> Some (zeroHash, Some e)
      | Inr (n, a) \<Rightarrow>
         (if n \<noteq> None then
            (case hash_New (sliceBytes a) of
               None \<Rightarrow> None
             | Some addr \<Rightarrow> Some (addr, None))
          else Some (zeroHash, None)))"

text \<open>An example map with two names.\<close>

definition exampleAddressMap :: AddressMap where
  "exampleAddressMap =
     \<lparr>addresses = \<lparr>entries = [([100, 115, 65], replicate 20 170), ([100, 115, 66], replicate 20 0)],
                   readFailure = None\<rparr>\<rparr>"

section \<open>The archive build pass\<close>

text \<open>
  Modelled from the spec: \<open>nbs.ChunkRelations\<close>, which lies outside the sources at hand:
  a union-find keyed by 20-byte addresses, in which \<open>Add(a, b)\<close> unions two addresses into
  one group and \<open>Count()\<close> returns the total number of related addresses. The structure
  is represented by the list of its groups.
\<close>

type_synonym ChunkRelations = "Hash list list"

text \<open>Modelled from the spec: the structure with no group.\<close>

definition NewChunkRelations :: ChunkRelations where
  "NewChunkRelations = []"

text \<open>Modelled from the spec: \<open>Add(a, b)\<close> unions two addresses into one group: the
  groups that hold either address become one group with both.\<close>

definition ChunkRelations_Add :: "ChunkRelations \<Rightarrow> Hash \<Rightarrow> Hash \<Rightarrow> ChunkRelations" where
  "ChunkRelations_Add groups a b =
     remdups (a # b # concat (filter (\<lambda>g. a \<in> set g \<or> b \<in> set g) groups))
       # filter (\<lambda>g. a \<notin> set g \<and> b \<notin> set g) groups"

text \<open>Modelled from the spec: \<open>Count()\<close> returns the total number of related addresses.\<close>

definition ChunkRelations_Count :: "ChunkRelations \<Rightarrow> nat" where
  "ChunkRelations_Count groups = length (concat groups)"

text \<open>Two addresses are related when one group holds both.\<close>

definition related :: "ChunkRelations \<Rightarrow> Hash \<Rightarrow> Hash \<Rightarrow> bool" where
  "related groups a b = (\<exists>g \<in> set groups. a \<in> set g \<and> b \<in> set g)"

text \<open>
  The database, its commits and the table deltas are seen by \<open>relateCommitToParentChunks\<close>
  through calls that lie outside the sources at hand; each object is represented by what
  these calls return on it. An error other than \<open>ErrNoShallowClones\<close> is one that a call
  returned.

  A table delta: the results of \<open>HasSchemaChanged\<close>, \<open>HasPrimaryKeySetChanged\<close> and
  \<open>HasDataChanged\<close>; the levels of the root nodes of the two row maps that \<open>GetRowData\<close>
  gives (its error is not looked at by the code); and what the walk
  \<open>tree.ChunkAddressDiffOrderedTrees\<close> does on the two row maps: the address pairs it
  reports to its callback, in order, and the error it returns. The callback itself always
  returns \<open>nil\<close>.
\<close>

datatype archiveError = ErrNoShallowClones | CallError nat

record TableDelta =
  HasSchemaChanged :: "archiveError + bool"
  HasPrimaryKeySetChanged :: bool
  HasDataChanged :: "archiveError + bool"
  fromLevel :: nat
  toLevel :: nat
  addrDiffs :: "(Hash \<times> Hash) list"
  walkError :: "archiveError option"

text \<open>
  A parent of a commit: the error of \<open>GetParent\<close>, whether \<open>ToCommit\<close> finds a commit, the
  error of its \<open>GetRootValue\<close>, and the result of \<open>diff.GetTableDeltas\<close> between the root
  value of the commit and that of the parent. A commit: the error of \<open>GetRootValue\<close> and
  its parents. \<open>db.ReadCommit\<close> fails, or gives something that \<open>ToCommit\<close> does not accept,
  or gives a commit.
\<close>

record Parent =
  GetParentError :: "archiveError option"
  parentExists :: bool
  parentRootValueError :: "archiveError option"
  GetTableDeltas :: "archiveError + TableDelta list"

record Commit =
  rootValueError :: "archiveError option"
  commitParents :: "Parent list"

datatype readCommit = ReadFails | NotACommit | IsCommit Commit

text \<open>The callback of the walk, applied to each pair that the walk reports.\<close>

fun addAllDiffs :: "ChunkRelations \<Rightarrow> (Hash \<times> Hash) list \<Rightarrow> ChunkRelations" where
  "addAllDiffs groupings [] = groupings"
| "addAllDiffs groupings ((from_a, to_a) # diffs) =
     addAllDiffs (ChunkRelations_Add groupings from_a to_a) diffs"

text \<open>The loop over the deltas. The result is the error returned, if any, and the
  groupings, which are changed in place and so keep every \<open>Add\<close> made before an error.\<close>

fun deltaLoop :: "ChunkRelations \<Rightarrow> TableDelta list \<Rightarrow> archiveError option \<times> ChunkRelations" where
  "deltaLoop groupings [] = (None, groupings)"
| "deltaLoop groupings (delta # deltas) =
     (case HasSchemaChanged delta of
        Inl err \<Rightarrow> (Some err, groupings)
      | Inr schChg \<Rightarrow>
          if schChg then deltaLoop groupings deltas
          else if HasPrimaryKeySetChanged delta then deltaLoop groupings deltas
          else
            (case HasDataChanged delta of
               Inl err \<Rightarrow> (Some err, groupings)
             | Inr changed \<Rightarrow>
                 if \<not> changed then deltaLoop groupings deltas
                 else if fromLevel delta \<noteq> toLevel delta then deltaLoop groupings deltas
                 else
                   (let groupings' = addAllDiffs groupings (addrDiffs delta) in
                    case walkError delta of
                      Some err \<Rightarrow> (Some err, groupings')
                    | None \<Rightarrow> deltaLoop groupings' deltas)))"

text \<open>The loop over the parents.\<close>

fun parentLoop :: "ChunkRelations \<Rightarrow> Parent list \<Rightarrow> archiveError option \<times> ChunkRelations" where
  "parentLoop groupings [] = (None, groupings)"
| "parentLoop groupings (p # ps) =
     (case GetParentError p of
        Some err \<Rightarrow> (Some err, groupings)
      | None \<Rightarrow>
          if \<not> parentExists p then (Some ErrNoShallowClones, groupings)
          else
            (case parentRootValueError p of
               Some err \<Rightarrow> (Some err, groupings)
             | None \<Rightarrow>
                (case GetTableDeltas p of
                   Inl err \<Rightarrow> (Some err, groupings)
                 | Inr deltas \<Rightarrow>
                    (case deltaLoop groupings deltas of
                       (Some err, groupings') \<Rightarrow> (Some err, groupings')
                     | (None, groupings') \<Rightarrow> parentLoop groupings' ps))))"

definition relateCommitToParentChunks ::
    "(Hash \<Rightarrow> readCommit) \<Rightarrow> Hash \<Rightarrow> ChunkRelations \<Rightarrow> archiveError option \<times> ChunkRelations" where
  "relateCommitToParentChunks db commit groupings =
     (case db commit of
        ReadFails \<Rightarrow> (None, groupings)
      | NotACommit \<Rightarrow> (Some ErrNoShallowClones, groupings)
      | IsCommit cmt \<Rightarrow>
         (case rootValueError cmt of
            Some err \<Rightarrow> (Some err, groupings)
          | None \<Rightarrow> parentLoop groupings (commitParents cmt)))"

text \<open>The deltas of the claim: schema unchanged, primary key set unchanged, row data
  changed; and those that the code walks: the root nodes of the two row maps at the same
  level as well.\<close>

definition dataChangedOnly :: "TableDelta \<Rightarrow> bool" where
  "dataChangedOnly delta =
     (HasSchemaChanged delta = Inr False \<and> HasPrimaryKeySetChanged delta = False \<and>
      HasDataChanged delta = Inr True)"

definition walked :: "TableDelta \<Rightarrow> bool" where
  "walked delta = (dataChangedOnly delta \<and> fromLevel delta = toLevel delta)"

text \<open>Example addresses, deltas and databases.\<close>

definition addressOf :: "byte \<Rightarrow> Hash" where
  "addressOf b = replicate 20 b"

definition changedDelta :: "nat \<Rightarrow> nat \<Rightarrow> (Hash \<times> Hash) list \<Rightarrow> TableDelta" where
  "changedDelta lf lt diffs =
     \<lparr>HasSchemaChanged = Inr False, HasPrimaryKeySetChanged = False, HasDataChanged = Inr True,
      fromLevel = lf, toLevel = lt, addrDiffs = diffs, walkError = None\<rparr>"

definition oneParentDb :: "TableDelta list \<Rightarrow> Hash \<Rightarrow> readCommit" where
  "oneParentDb deltas h =
     IsCommit \<lparr>rootValueError = None,
               commitParents = [\<lparr>GetParentError = None, parentExists = True,
                                 parentRootValueError = None, GetTableDeltas = Inr deltas\<rparr>]\<rparr>"

section \<open>The root of a chunk store\<close>

text \<open>
  Modelled from the spec: \<open>ChunkStore.Root\<close> and \<open>ChunkStore.Commit\<close>, whose
  implementations lie outside the sources at hand. The store holds its current root;
  \<open>Commit(new, expected)\<close> updates the root iff the current root equals \<open>expected\<close> and
  returns false otherwise. Writes are serialized through this operation, so that each call
  is one atomic step on the store, and two concurrent calls take effect in one of the two
  orders.
\<close>

record ChunkStore =
  root :: Hash

text \<open>Modelled from the spec: \<open>Root()\<close> returns the current root.\<close>

definition Root :: "ChunkStore \<Rightarrow> Hash" where
  "Root cs = root cs"

text \<open>Modelled from the spec: \<open>Commit(new, expected)\<close> updates the root iff the current
  root equals \<open>expected\<close>; returns false otherwise.\<close>

definition Commit :: "ChunkStore \<Rightarrow> Hash \<Rightarrow> Hash \<Rightarrow> bool \<times> ChunkStore" where
  "Commit cs new expected =
     (if root cs = expected then (True, cs\<lparr>root := new\<rparr>) else (False, cs))"

datatype commitOrder = FirstThenSecond | SecondThenFirst

text \<open>Modelled from the spec: two concurrent calls, serialized through the root: what the first and the second call return, and the store
  after both, in the given order of their steps.\<close>

definition concurrentCommits ::
    "commitOrder \<Rightarrow> ChunkStore \<Rightarrow> Hash \<times> Hash \<Rightarrow> Hash \<times> Hash \<Rightarrow> bool \<times> bool \<times> ChunkStore" where
  "concurrentCommits ord cs call1 call2 =
     (case ord of
        FirstThenSecond \<Rightarrow>
          (let (ok1, cs1) = Commit cs (fst call1) (snd call1);
               (ok2, cs2) = Commit cs1 (fst call2) (snd call2)
           in (ok1, ok2, cs2))
      | SecondThenFirst \<Rightarrow>
          (let (ok2, cs2) = Commit cs (fst call2) (snd call2);
               (ok1, cs1) = Commit cs2 (fst call1) (snd call1)
           in (ok1, ok2, cs1)))"

text \<open>
  \<open>runRoot\<close>, the command that reads or replaces the root. What it receives from outside
  is gathered in a record: its arguments, the value of the flag \<open>update\<close>, whether
  \<open>GetChunkStore\<close>, \<open>cs.Root\<close> and \<open>GetDatabase\<close> fail, the function \<open>hash.MaybeParse\<close>,
  the result of \<open>validate\<close>, what \<open>fmt.Scanln\<close> reads (the number of items and the input,
  or an error), and the error of \<open>cs.Commit\<close> if it returns one. The store is read by
  \<open>cs.Root\<close> in one state and met by \<open>cs.Commit\<close> in a state that another writer may
  have changed in between. The result is the value returned, or the exit of the process
  by \<open>util.CheckErrorNoUsage\<close>, with the lines printed (those of \<open>validate\<close> left out)
  and the store left behind.
\<close>

record runRootEnv =
  args :: "string list"
  updateRoot :: string
  getChunkStoreFails :: bool
  rootFails :: bool
  MaybeParse :: "string \<Rightarrow> Hash option"
  getDatabaseFails :: bool
  validates :: bool
  scanln :: "(nat \<times> string) option"
  commitError :: "string option"

datatype runResult = Returned int | Exited

datatype printed =
    NotEnoughArguments | ErrorGettingRoot | CurrentRoot Hash | InvalidHash | Warning
  | CommitErrorMessage string | OptimisticConcurrencyFailure | Success Hash

definition runRoot :: "runRootEnv \<Rightarrow> ChunkStore \<Rightarrow> ChunkStore \<Rightarrow> runResult \<times> printed list \<times> ChunkStore" where
  "runRoot env csAtRoot csAtCommit =
     (if length (args env) < 1 then (Returned 0, [NotEnoughArguments], csAtCommit)
      else if getChunkStoreFails env then (Exited, [], csAtCommit)
      else if rootFails env then (Returned 1, [ErrorGettingRoot], csAtCommit)
      else
        (let currRoot = Root csAtRoot in
         if updateRoot env = [] then (Returned 0, [CurrentRoot currRoot], csAtCommit)
         else
           (let update = (if hd (updateRoot env) = CHR ''#'' then tl (updateRoot env)
                          else updateRoot env) in
            case MaybeParse env update of
              None \<Rightarrow> (Returned 1, [InvalidHash], csAtCommit)
            | Some h \<Rightarrow>
                if getDatabaseFails env then (Exited, [], csAtCommit)
                else if \<not> validates env then (Returned 1, [], csAtCommit)
                else
                  (case scanln env of
                     None \<Rightarrow> (Exited, [Warning], csAtCommit)
                   | Some (n, input) \<Rightarrow>
                       if n \<noteq> 1 \<or> (input \<noteq> ''y'' \<and> input \<noteq> ''Y'') then
                         (Returned 0, [Warning], csAtCommit)
                       else
                         (case commitError env of
                            Some e \<Rightarrow> (Returned 1, [Warning, CommitErrorMessage e], csAtCommit)
                          | None \<Rightarrow>
                              (let (ok, cs') = Commit csAtCommit h currRoot in
                               if \<not> ok then
                                 (Returned 1, [Warning, OptimisticConcurrencyFailure], cs')
                               else (Returned 0, [Warning, Success currRoot], cs')))))))"

text \<open>An environment in which the command gets as far as \<open>cs.Commit\<close>: one argument,
  an update to the given hash, every call succeeding, the user answering \<open>y\<close>.\<close>

definition updatingEnv :: "Hash \<Rightarrow> runRootEnv" where
  "updatingEnv h =
     \<lparr>args = [''db''], updateRoot = ''#h'', getChunkStoreFails = False, rootFails = False,
      MaybeParse = (\<lambda>s. Some h), getDatabaseFails = False, validates = True,
      scanln = Some (1, ''y''), commitError = None\<rparr>"

definition reachesCommit :: "runRootEnv \<Rightarrow> bool" where
  "reachesCommit env =
     (length (args env) \<ge> 1 \<and> getChunkStoreFails env = False \<and> rootFails env = False \<and>
      updateRoot env \<noteq> [] \<and> getDatabaseFails env = False \<and> validates env \<and>
      (scanln env = Some (1, ''y'') \<or> scanln env = Some (1, ''Y'')) \<and> commitError env = None)"



text \<open>The one-column range with the given cuts, over the bytewise descriptor.\<close>

definition range1 :: "RangeCut \<Rightarrow> RangeCut \<Rightarrow> Range" where
  "range1 s e = \<lparr>Start = [s], Stop = [e], Desc = bytewiseDesc [byteType]\<rparr>"

definition unboundCut :: RangeCut where
  "unboundCut = \<lparr>Value = None, Inclusive = False, Null = False\<rparr>"

section \<open>Properties of ranges\<close>

lemma columns_from_Cons:
  "columns_from f i (c # cuts) = f i c # columns_from f (Suc i) cuts"
proof -
  have "[i ..< i + length (c # cuts)] = i # [Suc i ..< Suc i + length cuts]"
    by (simp add: upt_conv_Cons del: upt_Suc)
  then show ?thesis
    by (simp add: columns_from_def del: upt_Suc)
qed

lemma first_decision_Cons:
  "first_decision (x # os) = (case x of None \<Rightarrow> first_decision os | Some b \<Rightarrow> b)"
  by (cases x) (simp_all add: first_decision_def List.map_filter_simps)

lemma aboveStartFrom_columns:
  "aboveStartFrom d t i cuts = first_decision (columns_from (start_column d t) i cuts)"
proof (induction cuts arbitrary: i)
  case Nil
  show ?case by (simp add: columns_from_def first_decision_def List.map_filter_simps)
next
  case (Cons c cuts)
  have "aboveStartFrom d t i (c # cuts) =
      (case start_column d t i c of None \<Rightarrow> aboveStartFrom d t (Suc i) cuts | Some b \<Rightarrow> b)"
    by (auto simp add: start_column_def Let_def)
  then show ?case
    by (simp only: columns_from_Cons first_decision_Cons Cons.IH)
qed

lemma belowStopFrom_columns:
  "belowStopFrom d t i cuts = first_decision (columns_from (stop_column d t) i cuts)"
proof (induction cuts arbitrary: i)
  case Nil
  show ?case by (simp add: columns_from_def first_decision_def List.map_filter_simps)
next
  case (Cons c cuts)
  have "belowStopFrom d t i (c # cuts) =
      (case stop_column d t i c of None \<Rightarrow> belowStopFrom d t (Suc i) cuts | Some b \<Rightarrow> b)"
    by (auto simp add: stop_column_def Let_def)
  then show ?case
    by (simp only: columns_from_Cons first_decision_Cons Cons.IH)
qed

text \<open>
  Claim C1. A range admits a tuple exactly when \<open>AboveStart\<close> and \<open>BelowStop\<close> both hold,
  and each of the two is the column-by-column evaluation: a non-binding cut skips its
  column, a Null cut is satisfied only by the NULL field, the first column whose cut
  decides gives the result of the phase. In the order of cuts, a Null cut comes after
  every cut that is not Null, and before none.
\<close>

theorem range_admits_column_by_column:
  "AboveStart r t = first_decision (columns_from (start_column (Desc r) t) 0 (Start r))
   \<and> BelowStop r t = first_decision (columns_from (stop_column (Desc r) t) 0 (Stop r))
   \<and> (AboveStart r t \<and> BelowStop r t) = admits_by_columns r t
   \<and> cut_less c (other\<lparr>Null := True\<rparr>) typ tc = (\<not> Null c)
   \<and> cut_less (c\<lparr>Null := True\<rparr>) other typ tc = False"
  by (simp add: AboveStart_def BelowStop_def admits_by_columns_def
      aboveStartFrom_columns belowStopFrom_columns cut_less_def)

subsection \<open>Merging single-column closed intervals\<close>

lemma tp_flip: "total_preorder cmp \<Longrightarrow> (\<not> cmp a b < 0) = (cmp b a \<le> 0)"
  unfolding total_preorder_def by (metis linorder_not_less)

lemma tp_trans: "total_preorder cmp \<Longrightarrow> cmp a b \<le> 0 \<Longrightarrow> cmp b c \<le> 0 \<Longrightarrow> cmp a c \<le> 0"
  unfolding total_preorder_def by blast

lemma tp_lt_le_trans: "total_preorder cmp \<Longrightarrow> cmp a b < 0 \<Longrightarrow> cmp b c \<le> 0 \<Longrightarrow> cmp a c < 0"
  by (metis tp_flip tp_trans linorder_not_less)

lemma tp_le_lt_trans: "total_preorder cmp \<Longrightarrow> cmp a b \<le> 0 \<Longrightarrow> cmp b c < 0 \<Longrightarrow> cmp a c < 0"
  by (metis tp_flip tp_trans linorder_not_less)

lemma closed_intervalD:
  assumes "closed_interval d r"
  obtains s e where "Desc r = d" "Start r = [s]" "Stop r = [e]" "inclusive_value_cut s"
    "inclusive_value_cut e" "compare0 d (Value s) (Value e) \<le> 0" "lo r = Value s" "hi r = Value e"
  using assms unfolding closed_interval_def lo_def hi_def
  by (auto split: list.splits)

lemma admits_interval:
  assumes "total_preorder (compare0 d)" "compares_field0 d" "closed_interval d r"
  shows "admits r t = (GetField t 0 \<noteq> None \<and> compare0 d (lo r) (GetField t 0) \<le> 0 \<and> compare0 d (GetField t 0) (hi r) \<le> 0)"
proof -
  from assms(3) obtain s e where r: "Desc r = d" "Start r = [s]" "Stop r = [e]" "inclusive_value_cut s"
    "inclusive_value_cut e" "lo r = Value s" "hi r = Value e"
    by (rule closed_intervalD)
  have cf: "\<And>v. CompareField d v 0 t = compare0 d v (GetField t 0)"
    using assms(2) by (simp add: compares_field0_def)
  have flip: "\<And>a b. (0 \<le> compare0 d a b) = (compare0 d b a \<le> 0)"
    using tp_flip [OF assms(1)] by (simp add: linorder_not_less)
  have a: "AboveStart r t = (GetField t 0 \<noteq> None \<and> compare0 d (Value s) (GetField t 0) \<le> 0)"
    using r(4)
    by (auto simp add: AboveStart_def r inclusive_value_cut_def nonBinding_def cf Let_def)
  have b: "BelowStop r t = (GetField t 0 \<noteq> None \<and> 0 \<le> compare0 d (Value e) (GetField t 0))"
    using r(5)
    by (auto simp add: BelowStop_def r inclusive_value_cut_def nonBinding_def cf Let_def)
  show ?thesis
    unfolding admits_def a b flip r by blast
qed

lemma overlaps_interval:
  assumes "Types d \<noteq> []" "total_preorder (compare0 d)" "closed_interval d r" "closed_interval d other"
  shows "overlaps r other = Some (compare0 d (lo other) (hi r) \<le> 0 \<and> compare0 d (lo r) (hi other) \<le> 0)"
proof -
  from assms(3) obtain s e where r: "Desc r = d" "Start r = [s]" "Stop r = [e]" "inclusive_value_cut s"
    "inclusive_value_cut e" "lo r = Value s" "hi r = Value e"
    by (rule closed_intervalD)
  from assms(4) obtain s' e' where ot: "Desc other = d" "Start other = [s']" "Stop other = [e']" "inclusive_value_cut s'"
    "inclusive_value_cut e'" "lo other = Value s'" "hi other = Value e'"
    by (rule closed_intervalD)
  obtain ty0 tys where ty: "Types d = ty0 # tys" using assms(1) by (cases "Types d") auto
  have c0: "\<And>a b. CompareValues d a b ty0 = compare0 d a b" by (simp add: compare0_def ty)
  have flip: "\<And>a b. (\<not> compare0 d a b < 0) = (compare0 d b a \<le> 0)"
    using tp_flip [OF assms(2)] by simp
  have l1: "cut_less e s' ty0 (CompareValues d) = (compare0 d (Value e) (Value s') < 0)"
    using r(5) ot(4) by (auto simp: cut_less_def inclusive_value_cut_def nonBinding_def c0 Let_def)
  have l2: "cut_less e' s ty0 (CompareValues d) = (compare0 d (Value e') (Value s) < 0)"
    using r(4) ot(5) by (auto simp: cut_less_def inclusive_value_cut_def nonBinding_def c0 Let_def)
  show ?thesis
    using flip by (auto simp add: overlaps_def r ot ty l1 l2)
qed


lemma Range_less_interval:
  assumes "Types d \<noteq> []" "closed_interval d r" "closed_interval d other"
  shows "Range_less r other = Some (compare0 d (lo r) (lo other) < 0)"
proof -
  from assms(2) obtain s e where r: "Desc r = d" "Start r = [s]" "inclusive_value_cut s" "lo r = Value s"
    by (rule closed_intervalD)
  from assms(3) obtain s' e' where ot: "Desc other = d" "Start other = [s']" "inclusive_value_cut s'" "lo other = Value s'"
    by (rule closed_intervalD)
  show ?thesis
    using assms(1) r(3) ot(3)
    by (auto simp add: Range_less_def r ot cut_less_def inclusive_value_cut_def nonBinding_def compare0_def Let_def)
qed

lemma merge_interval:
  assumes "Types d \<noteq> []" "total_preorder (compare0 d)" "closed_interval d r" "closed_interval d other"
    "compare0 d (lo r) (lo other) \<le> 0"
  shows "\<exists>m. merge r other = Some m \<and> closed_interval d m \<and> lo m = lo r \<and>
    hi m = (if compare0 d (hi other) (hi r) < 0 then hi r else hi other)"
proof -
  from assms(3) obtain s e where r: "Desc r = d" "Start r = [s]" "Stop r = [e]" "inclusive_value_cut s"
    "inclusive_value_cut e" "compare0 d (Value s) (Value e) \<le> 0" "lo r = Value s" "hi r = Value e"
    by (rule closed_intervalD)
  from assms(4) obtain s' e' where ot: "Desc other = d" "Start other = [s']" "Stop other = [e']" "inclusive_value_cut s'"
    "inclusive_value_cut e'" "compare0 d (Value s') (Value e') \<le> 0" "lo other = Value s'" "hi other = Value e'"
    by (rule closed_intervalD)
  have l1: "cut_less s' s (Types d ! 0) (CompareValues d) = (compare0 d (Value s') (Value s) < 0)"
    using r(4) ot(4) by (auto simp: cut_less_def inclusive_value_cut_def nonBinding_def compare0_def Let_def)
  have l2: "cut_less e' e (Types d ! 0) (CompareValues d) = (compare0 d (Value e') (Value e) < 0)"
    using r(5) ot(5) by (auto simp: cut_less_def inclusive_value_cut_def nonBinding_def compare0_def Let_def)
  have nb: "\<not> nonBinding s" "\<not> nonBinding s'" "\<not> nonBinding e" "\<not> nonBinding e'"
    using r(4,5) ot(4,5) by (auto simp: inclusive_value_cut_def nonBinding_def)
  have nl: "\<not> compare0 d (Value s') (Value s) < 0"
    using assms(5) tp_flip [OF assms(2)] by (simp add: r ot)
  define m where "m = \<lparr>Start = [s], Stop = [if compare0 d (Value e') (Value e) < 0 then e else e'], Desc = d\<rparr>"
  have mm: "merge r other = Some m"
    using assms(1) nb nl by (simp add: merge_def Desc_Equals_def r ot l1 l2 m_def)
  have le: "compare0 d (Value s) (Value (if compare0 d (Value e') (Value e) < 0 then e else e')) \<le> 0"
  proof (cases "compare0 d (Value e') (Value e) < 0")
    case True then show ?thesis using r(6) by simp
  next
    case False
    then have "compare0 d (Value e) (Value e') \<le> 0" using tp_flip [OF assms(2)] by simp
    with r(6) have "compare0 d (Value s) (Value e') \<le> 0" by (rule tp_trans [OF assms(2)])
    with False show ?thesis by simp
  qed
  have cl: "closed_interval d m"
    using r(4,5) ot(5) le by (simp add: closed_interval_def m_def)
  have "lo m = lo r" by (simp add: lo_def m_def r)
  moreover have "hi m = (if compare0 d (hi other) (hi r) < 0 then hi r else hi other)"
    by (simp add: hi_def m_def r ot)
  ultimately show ?thesis using mm cl by blast
qed


lemma tp_refl: "total_preorder cmp \<Longrightarrow> cmp a a \<le> 0"
  unfolding total_preorder_def by (metis linorder_not_less order_less_imp_le)

lemma merge_admits:
  assumes tp: "total_preorder (compare0 d)" and cf: "compares_field0 d"
    and a: "closed_interval d acc" and r: "closed_interval d rng" and m: "closed_interval d m"
    and lom: "lo m = lo acc"
    and him: "hi m = (if compare0 d (hi rng) (hi acc) < 0 then hi acc else hi rng)"
    and le: "compare0 d (lo acc) (lo rng) \<le> 0"
    and ov: "compare0 d (lo rng) (hi acc) \<le> 0"
  shows "admits m t = (admits acc t \<or> admits rng t)"
proof (cases "GetField t 0")
  case None
  then show ?thesis by (simp add: admits_interval [OF tp cf a] admits_interval [OF tp cf r] admits_interval [OF tp cf m])
next
  case (Some f)
  let ?f = "Some f"
  have A: "admits acc t = (compare0 d (lo acc) ?f \<le> 0 \<and> compare0 d ?f (hi acc) \<le> 0)"
    by (simp add: admits_interval [OF tp cf a] Some)
  have R: "admits rng t = (compare0 d (lo rng) ?f \<le> 0 \<and> compare0 d ?f (hi rng) \<le> 0)"
    by (simp add: admits_interval [OF tp cf r] Some)
  have M: "admits m t = (compare0 d (lo acc) ?f \<le> 0 \<and> compare0 d ?f (hi m) \<le> 0)"
    by (simp add: admits_interval [OF tp cf m] Some lom)
  have up1: "compare0 d (hi acc) (hi m) \<le> 0"
    using him tp_refl [OF tp] tp_flip [OF tp] by (metis)
  have up2: "compare0 d (hi rng) (hi m) \<le> 0"
    using him tp_refl [OF tp] by (metis order_less_imp_le)
  show ?thesis
  proof
    assume "admits m t"
    then have 1: "compare0 d (lo acc) ?f \<le> 0" and 2: "compare0 d ?f (hi m) \<le> 0" using M by auto
    show "admits acc t \<or> admits rng t"
    proof (cases "compare0 d ?f (hi acc) \<le> 0")
      case True
      then show ?thesis using A 1 by simp
    next
      case False
      then have lt: "compare0 d (hi acc) ?f < 0" using tp_flip [OF tp] by (metis linorder_not_less)
      have "hi m = hi rng" using him 2 False by (metis)
      then have "compare0 d ?f (hi rng) \<le> 0" using 2 by simp
      moreover have "compare0 d (lo rng) ?f \<le> 0"
        using tp_le_lt_trans [OF tp ov lt] by simp
      ultimately show ?thesis using R by simp
    qed
  next
    assume "admits acc t \<or> admits rng t"
    then show "admits m t"
    proof
      assume "admits acc t"
      then show ?thesis using A M up1 tp_trans [OF tp] by blast
    next
      assume "admits rng t"
      then show ?thesis using R M up2 le tp_trans [OF tp] by blast
    qed
  qed
qed


lemma merge_loop_intervals:
  assumes ty: "Types d \<noteq> []" and tp: "total_preorder (compare0 d)" and cf: "compares_field0 d"
  shows "closed_interval d acc \<Longrightarrow>
     \<forall>r\<in>set rest. closed_interval d r \<and> compare0 d (lo acc) (lo r) \<le> 0 \<Longrightarrow>
     sorted_wrt (\<lambda>a b. compare0 d (lo a) (lo b) \<le> 0) rest \<Longrightarrow>
     \<exists>out. merge_loop merged acc rest = Some (merged @ out) \<and>
       (\<forall>x\<in>set out. closed_interval d x \<and> compare0 d (lo acc) (lo x) \<le> 0) \<and>
       sorted_wrt (\<lambda>a b. compare0 d (hi a) (lo b) < 0) out \<and>
       (\<forall>t. (\<exists>x\<in>set out. admits x t) = (admits acc t \<or> (\<exists>x\<in>set rest. admits x t)))"
proof (induction rest arbitrary: merged acc)
  case Nil
  then show ?case using tp_refl [OF tp] by simp
next
  case (Cons rng rest)
  have a: "closed_interval d acc" by fact
  have r: "closed_interval d rng" and le: "compare0 d (lo acc) (lo rng) \<le> 0"
    using Cons.prems(2) by auto
  have rest: "\<forall>x\<in>set rest. closed_interval d x \<and> compare0 d (lo acc) (lo x) \<le> 0"
    using Cons.prems(2) by auto
  have rest': "\<forall>x\<in>set rest. closed_interval d x \<and> compare0 d (lo rng) (lo x) \<le> 0"
    using Cons.prems(2,3) by auto
  have srt: "sorted_wrt (\<lambda>a b. compare0 d (lo a) (lo b) \<le> 0) rest"
    using Cons.prems(3) by simp
  have lohi: "compare0 d (lo rng) (hi rng) \<le> 0"
    using r by (elim closed_intervalD) simp
  have second: "compare0 d (lo acc) (hi rng) \<le> 0"
    using tp_trans [OF tp le lohi] .
  have ov: "overlaps acc rng = Some (compare0 d (lo rng) (hi acc) \<le> 0)"
    using overlaps_interval [OF ty tp a r] second by simp
  show ?case
  proof (cases "compare0 d (lo rng) (hi acc) \<le> 0")
    case True
    from merge_interval [OF ty tp a r le] obtain m where
      m: "merge acc rng = Some m" "closed_interval d m" "lo m = lo acc"
         "hi m = (if compare0 d (hi rng) (hi acc) < 0 then hi acc else hi rng)"
      by blast
    have step: "merge_loop merged acc (rng # rest) = merge_loop merged m rest"
      using ov True m(1) by simp
    from Cons.IH [of m merged, OF m(2) _ srt] rest m(3)
    obtain out where out: "merge_loop merged m rest = Some (merged @ out)"
      "\<forall>x\<in>set out. closed_interval d x \<and> compare0 d (lo m) (lo x) \<le> 0"
      "sorted_wrt (\<lambda>a b. compare0 d (hi a) (lo b) < 0) out"
      "\<forall>t. (\<exists>x\<in>set out. admits x t) = (admits m t \<or> (\<exists>x\<in>set rest. admits x t))"
      by auto
    have adm: "\<And>t. admits m t = (admits acc t \<or> admits rng t)"
      by (rule merge_admits [OF tp cf a r m(2) m(3) m(4) le True])
    show ?thesis
      using step out m(3) adm by auto
  next
    case False
    then have lt: "compare0 d (hi acc) (lo rng) < 0"
      using tp_flip [OF tp] by (metis linorder_not_less)
    have step: "merge_loop merged acc (rng # rest) = merge_loop (merged @ [acc]) rng rest"
      using ov False by simp
    from Cons.IH [of rng "merged @ [acc]", OF r rest' srt]
    obtain out where out: "merge_loop (merged @ [acc]) rng rest = Some ((merged @ [acc]) @ out)"
      "\<forall>x\<in>set out. closed_interval d x \<and> compare0 d (lo rng) (lo x) \<le> 0"
      "sorted_wrt (\<lambda>a b. compare0 d (hi a) (lo b) < 0) out"
      "\<forall>t. (\<exists>x\<in>set out. admits x t) = (admits rng t \<or> (\<exists>x\<in>set rest. admits x t))"
      by auto
    have 1: "merge_loop merged acc (rng # rest) = Some (merged @ (acc # out))"
      using step out(1) by simp
    have 2: "\<forall>x\<in>set (acc # out). closed_interval d x \<and> compare0 d (lo acc) (lo x) \<le> 0"
      using a out(2) tp_refl [OF tp] tp_trans [OF tp le] by auto
    have 3: "sorted_wrt (\<lambda>a b. compare0 d (hi a) (lo b) < 0) (acc # out)"
      using out(2,3) tp_lt_le_trans [OF tp lt] by auto
    have 4: "\<forall>t. (\<exists>x\<in>set (acc # out). admits x t) = (admits acc t \<or> (\<exists>x\<in>set (rng # rest). admits x t))"
      using out(4) by auto
    show ?thesis using 1 2 3 4 by blast
  qed
qed


lemma chain_disjoint:
  assumes ty: "Types d \<noteq> []" and tp: "total_preorder (compare0 d)" and cf: "compares_field0 d"
    and cl: "\<forall>x\<in>set out. closed_interval d x"
    and ch: "sorted_wrt (\<lambda>a b. compare0 d (hi a) (lo b) < 0) out"
    and ij: "i < j" "j < length out"
  shows "overlaps (out ! i) (out ! j) = Some False" "overlaps (out ! j) (out ! i) = Some False"
    "\<not> (admits (out ! i) t \<and> admits (out ! j) t)"
proof -
  have ci: "closed_interval d (out ! i)" and cj: "closed_interval d (out ! j)"
    using cl ij by auto
  have lt: "compare0 d (hi (out ! i)) (lo (out ! j)) < 0"
    using ch ij by (simp add: sorted_wrt_iff_nth_less)
  then have nle: "\<not> compare0 d (lo (out ! j)) (hi (out ! i)) \<le> 0"
    using tp_flip [OF tp] by (metis linorder_not_less)
  show "overlaps (out ! i) (out ! j) = Some False"
    using overlaps_interval [OF ty tp ci cj] nle by simp
  show "overlaps (out ! j) (out ! i) = Some False"
    using overlaps_interval [OF ty tp cj ci] nle by simp
  show "\<not> (admits (out ! i) t \<and> admits (out ! j) t)"
    using admits_interval [OF tp cf ci] admits_interval [OF tp cf cj] nle tp_trans [OF tp]
    by blast
qed

text \<open>
  Claim C2, as amended. For a list of single-column ranges over one descriptor, each with
  an inclusive value cut at both ends and its start not above its stop, under a comparator
  that is a total preorder, and with \<open>sort.Slice\<close> returning a permutation sorted by
  \<open>Range.less\<close>: \<open>MergeOverlappingRanges\<close> returns ranges that admit exactly the tuples
  that the given ranges admit, no two of which overlap, and no two of which admit a
  common tuple.
\<close>

theorem merge_overlapping_intervals:
  assumes ty: "Types d \<noteq> []" and tp: "total_preorder (compare0 d)" and cf: "compares_field0 d"
    and cl: "\<forall>r\<in>set R. closed_interval d r"
    and s1: "srt Range_less R = Some S" and s2: "mset S = mset R"
    and s3: "sorted_wrt (\<lambda>a b. Range_less b a = Some False) S"
  shows "\<exists>out. MergeOverlappingRanges srt R = Some out \<and>
    (\<forall>t. (\<exists>r\<in>set out. admits r t) = (\<exists>r\<in>set R. admits r t)) \<and>
    (\<forall>i<length out. \<forall>j<length out. i \<noteq> j \<longrightarrow> overlaps (out ! i) (out ! j) = Some False) \<and>
    (\<forall>i<length out. \<forall>j<length out. \<forall>t. i \<noteq> j \<longrightarrow> \<not> (admits (out ! i) t \<and> admits (out ! j) t))"
proof (cases "length R \<le> 1")
  case True
  then have "MergeOverlappingRanges srt R = Some R" by (simp add: MergeOverlappingRanges_def)
  moreover have "\<And>i j. i < length R \<Longrightarrow> j < length R \<Longrightarrow> i = j" using True by simp
  ultimately show ?thesis by auto
next
  case False
  have setS: "set S = set R" using s2 by (rule mset_eq_setD)
  have "length S = length R" using s2 by (rule mset_eq_length)
  with False obtain acc rest where S: "S = acc # rest" by (cases S) auto
  have clS: "\<forall>r\<in>set S. closed_interval d r" using cl setS by simp
  have less: "\<And>a b. a \<in> set S \<Longrightarrow> b \<in> set S \<Longrightarrow>
      (Range_less b a = Some False) = (compare0 d (lo a) (lo b) \<le> 0)"
    using Range_less_interval [OF ty] clS tp_flip [OF tp] by simp
  have srtS: "sorted_wrt (\<lambda>a b. compare0 d (lo a) (lo b) \<le> 0) S"
    unfolding sorted_wrt_iff_nth_less
  proof (intro allI impI)
    fix i j assume ij: "i < j" "j < length S"
    then have "Range_less (S ! j) (S ! i) = Some False"
      using s3 by (simp add: sorted_wrt_iff_nth_less)
    moreover have "S ! i \<in> set S" "S ! j \<in> set S" using ij by simp_all
    ultimately show "compare0 d (lo (S ! i)) (lo (S ! j)) \<le> 0"
      using less by blast
  qed
  have a: "closed_interval d acc" using clS S by simp
  have p2: "\<forall>r\<in>set rest. closed_interval d r \<and> compare0 d (lo acc) (lo r) \<le> 0"
    using clS srtS S by auto
  have p3: "sorted_wrt (\<lambda>a b. compare0 d (lo a) (lo b) \<le> 0) rest"
    using srtS S by simp
  from merge_loop_intervals [OF ty tp cf a p2 p3, of "[]"]
  obtain out where out: "merge_loop [] acc rest = Some out"
      "\<forall>x\<in>set out. closed_interval d x"
      "sorted_wrt (\<lambda>a b. compare0 d (hi a) (lo b) < 0) out"
      "\<forall>t. (\<exists>x\<in>set out. admits x t) = (admits acc t \<or> (\<exists>x\<in>set rest. admits x t))"
    by auto
  have 1: "MergeOverlappingRanges srt R = Some out"
    using False s1 S out(1) by (simp add: MergeOverlappingRanges_def SortRanges_def)
  have 2: "\<forall>t. (\<exists>r\<in>set out. admits r t) = (\<exists>r\<in>set R. admits r t)"
    using out(4) setS S by auto
  have 3: "overlaps (out ! i) (out ! j) = Some False \<and> \<not> (admits (out ! i) t \<and> admits (out ! j) t)"
    if "i < length out" "j < length out" "i \<noteq> j" for i j t
  proof (cases "i < j")
    case True
    then show ?thesis using chain_disjoint [OF ty tp cf out(2) out(3) True that(2)] by blast
  next
    case False
    then have "j < i" using that(3) by simp
    then show ?thesis using chain_disjoint [OF ty tp cf out(2) out(3) _ that(1)] by blast
  qed
  show ?thesis using 1 2 3 by blast
qed

subsection \<open>The bytewise descriptor and the examples\<close>

lemma bytesCompare_flip: "(bytesCompare a b < 0) = (0 < bytesCompare b a)"
  by (induction a b rule: bytesCompare.induct) auto

lemma bytesCompare_trans:
  "bytesCompare a b \<le> 0 \<Longrightarrow> bytesCompare b c \<le> 0 \<Longrightarrow> bytesCompare a c \<le> 0"
proof (induction a b arbitrary: c rule: bytesCompare.induct)
  case (1)
  then show ?case by simp
next
  case (2 b bs)
  then show ?case by (cases c) auto
next
  case (3 a as)
  then show ?case by simp
next
  case (4 a as b bs)
  then show ?case
    by (cases c) (auto split: if_splits)
qed

lemma bytewise_total_preorder: "total_preorder (compare0 (bytewiseDesc tys))"
  unfolding total_preorder_def compare0_def bytewiseDesc_def
  using bytesCompare_flip bytesCompare_trans by (simp) blast

lemma bytewise_compares_field0: "compares_field0 (bytewiseDesc tys)"
  by (simp add: compares_field0_def compare0_def bytewiseDesc_def)

lemmas range_eval = MergeOverlappingRanges_def SortRanges_def insertionSort_def Range_less_def
    bytewiseDesc_def valueCut_def cut_less_def nonBinding_def sliceBytes_def overlaps_def merge_def Desc_Equals_def
    interval1_def box2_def byteType_def

text \<open>Claim C2 as amended, at three intervals given out of order: the first two merge,
  the third stays apart.\<close>

theorem merge_overlapping_intervals_witness:
  "MergeOverlappingRanges insertionSort [interval1 2 4, interval1 1 3, interval1 7 9]
     = Some [interval1 1 4, interval1 7 9]
   \<and> (\<forall>t. (admits (interval1 1 4) t \<or> admits (interval1 7 9) t)
          = (admits (interval1 2 4) t \<or> admits (interval1 1 3) t \<or> admits (interval1 7 9) t))
   \<and> overlaps (interval1 1 4) (interval1 7 9) = Some False
   \<and> (\<forall>t. \<not> (admits (interval1 1 4) t \<and> admits (interval1 7 9) t))"
proof -
  let ?d = "bytewiseDesc [byteType]"
  let ?R = "[interval1 2 4, interval1 1 3, interval1 7 9]"
  let ?S = "[interval1 1 3, interval1 2 4, interval1 7 9]"
  have ty: "Types ?d \<noteq> []" by (simp add: bytewiseDesc_def)
  have cl: "\<forall>r\<in>set ?R. closed_interval ?d r"
    by (simp add: closed_interval_def interval1_def inclusive_value_cut_def valueCut_def
        compare0_def bytewiseDesc_def sliceBytes_def)
  have s1: "insertionSort Range_less ?R = Some ?S"
    by (simp add: range_eval)
  have s2: "mset ?S = mset ?R" by (simp add: add.commute)
  have s3: "sorted_wrt (\<lambda>a b. Range_less b a = Some False) ?S"
    by (simp add: range_eval)
  have run: "MergeOverlappingRanges insertionSort ?R = Some [interval1 1 4, interval1 7 9]"
    by (simp add: range_eval)
  from merge_overlapping_intervals [where srt = insertionSort and d = ?d and R = ?R and S = ?S,
      OF ty bytewise_total_preorder bytewise_compares_field0 cl s1 s2 s3]
  obtain out where out: "MergeOverlappingRanges insertionSort ?R = Some out"
    "\<forall>t. (\<exists>r\<in>set out. admits r t) = (\<exists>r\<in>set ?R. admits r t)"
    "\<forall>i<length out. \<forall>j<length out. i \<noteq> j \<longrightarrow> overlaps (out ! i) (out ! j) = Some False"
    "\<forall>i<length out. \<forall>j<length out. \<forall>t. i \<noteq> j \<longrightarrow> \<not> (admits (out ! i) t \<and> admits (out ! j) t)"
    by blast
  have eq: "out = [interval1 1 4, interval1 7 9]" using out(1) run by simp
  have a: "\<forall>t. (admits (interval1 1 4) t \<or> admits (interval1 7 9) t)
          = (admits (interval1 2 4) t \<or> admits (interval1 1 3) t \<or> admits (interval1 7 9) t)"
    using out(2) unfolding eq by simp
  have b: "overlaps (interval1 1 4) (interval1 7 9) = Some False"
    using out(3) [rule_format, of 0 1] unfolding eq by simp
  have c: "\<forall>t. \<not> (admits (interval1 1 4) t \<and> admits (interval1 7 9) t)"
    using out(4) [rule_format, of 0 1] unfolding eq by simp
  show ?thesis using run a b c by blast
qed

text \<open>
  Claim C2 as stated fails for ranges of more than one column: \<open>merge\<close> takes the least
  start and the greatest stop in every column, so the merged range is the bounding box of
  the two. The ranges \<open>[1,3] \<times> [1,1]\<close> and \<open>[2,4] \<times> [5,5]\<close> overlap on column 0; their
  merge \<open>[1,4] \<times> [1,5]\<close> admits the tuple \<open>(1,3)\<close>, which neither of them admits.
\<close>

theorem merge_box_counterexample:
  "MergeOverlappingRanges insertionSort [box2 (1, 1) (3, 1), box2 (2, 5) (4, 5)] = Some [box2 (1, 1) (4, 5)]
   \<and> admits (box2 (1, 1) (4, 5)) (tupleOf [Some [1], Some [3]])
   \<and> \<not> admits (box2 (1, 1) (3, 1)) (tupleOf [Some [1], Some [3]])
   \<and> \<not> admits (box2 (2, 5) (4, 5)) (tupleOf [Some [1], Some [3]])"
  by (simp add: range_eval admits_def AboveStart_def BelowStop_def tupleOf_def GetField_def)

text \<open>Claim C1 at two ranges and a tuple: one admits it, the other rejects it at its
  second column; a Null cut comes after a value cut.\<close>

theorem range_admits_column_by_column_witness:
  "admits_by_columns (box2 (1, 1) (4, 5)) (tupleOf [Some [1], Some [3]])
   \<and> \<not> admits_by_columns (box2 (1, 1) (3, 1)) (tupleOf [Some [1], Some [3]])
   \<and> cut_less (valueCut 7 False) (valueCut 7 True\<lparr>Null := True\<rparr>) byteType (CompareValues (bytewiseDesc [byteType]))"
proof -
  let ?t = "tupleOf [Some [1], Some [3]]"
  have a: "AboveStart (box2 (1, 1) (4, 5)) ?t \<and> BelowStop (box2 (1, 1) (4, 5)) ?t"
    by (simp add: range_eval AboveStart_def BelowStop_def tupleOf_def GetField_def)
  have b: "\<not> (AboveStart (box2 (1, 1) (3, 1)) ?t \<and> BelowStop (box2 (1, 1) (3, 1)) ?t)"
    by (simp add: range_eval AboveStart_def BelowStop_def tupleOf_def GetField_def)
  have n: "\<not> Null (valueCut 7 False)" by (simp add: valueCut_def)
  show ?thesis
    using a b n
      range_admits_column_by_column [of "box2 (1, 1) (4, 5)" ?t "valueCut 7 False" "valueCut 7 True" byteType "CompareValues (bytewiseDesc [byteType])"]
      range_admits_column_by_column [of "box2 (1, 1) (3, 1)" ?t "valueCut 7 False" "valueCut 7 True" byteType "CompareValues (bytewiseDesc [byteType])"]
    by blast
qed

subsection \<open>Range constructors\<close>

lemma inclusiveBound_flags:
  "map Inclusive (inclusiveBound tup desc) = replicate (length (Types desc)) True"
  by (simp add: inclusiveBound_def map_replicate_const comp_def)

lemma replicate_last_update:
  "0 < k \<Longrightarrow> (replicate k True)[k - 1 := False] = replicate (k - 1) True @ [False]"
proof -
  assume "0 < k"
  then obtain n where k: "k = Suc n" by (cases k) auto
  have "replicate (Suc n) True = replicate n True @ [True]"
    by (simp add: replicate_append_same)
  then show ?thesis by (simp add: k list_update_append del: replicate_Suc)
qed

lemma exclusiveBound_flags:
  assumes "0 < length (Types desc)"
  shows "\<exists>cut. exclusiveBound tup desc = Some cut \<and>
    map Inclusive cut = replicate (length (Types desc) - 1) True @ [False]"
proof -
  let ?c = "inclusiveBound tup desc"
  have len: "length ?c = length (Types desc)" by (simp add: inclusiveBound_def)
  then have ne: "?c \<noteq> []" using assms by auto
  have "map Inclusive (?c[length ?c - 1 := (?c ! (length ?c - 1))\<lparr>Inclusive := False\<rparr>])
      = (replicate (length (Types desc)) True)[length (Types desc) - 1 := False]"
    by (simp add: map_update inclusiveBound_flags len)
  also have "\<dots> = replicate (length (Types desc) - 1) True @ [False]"
    by (rule replicate_last_update [OF assms])
  finally have flags: "map Inclusive (?c[length ?c - 1 := (?c ! (length ?c - 1))\<lparr>Inclusive := False\<rparr>])
      = replicate (length (Types desc) - 1) True @ [False]" .
  have "exclusiveBound tup desc = Some (?c[length ?c - 1 := (?c ! (length ?c - 1))\<lparr>Inclusive := False\<rparr>])"
    using ne by (simp add: exclusiveBound_def Let_def)
  with flags show ?thesis by blast
qed

text \<open>
  Claim C5. For a descriptor with \<open>k \<ge> 1\<close> columns, each of the eight constructors
  returns a range whose bound vectors have \<open>k\<close> cuts with columns \<open>0..k-2\<close> inclusive, and
  column \<open>k-1\<close> inclusive or exclusive as the constructor's name says: exclusive for
  \<open>Greater\<close>, \<open>Lesser\<close>, \<open>Open\<close> and the open side of the half-open ones, inclusive for
  \<open>GreaterOrEqual\<close>, \<open>LesserOrEqual\<close>, \<open>Closed\<close> and the closed side of the half-open
  ones. A one-sided constructor leaves the other vector empty.
\<close>

theorem constructors_mark_inclusivity:
  assumes "length (Types desc) = k" and "0 < k"
  shows "map_option inclusivity (GreaterRange start desc) = Some (replicate (k - 1) True @ [False], [])
    \<and> map_option inclusivity (GreaterOrEqualRange start desc) = Some (replicate (k - 1) True @ [True], [])
    \<and> map_option inclusivity (LesserRange stop desc) = Some ([], replicate (k - 1) True @ [False])
    \<and> map_option inclusivity (LesserOrEqualRange stop desc) = Some ([], replicate (k - 1) True @ [True])
    \<and> map_option inclusivity (OpenRange start stop desc)
           = Some (replicate (k - 1) True @ [False], replicate (k - 1) True @ [False])
    \<and> map_option inclusivity (OpenStartRange start stop desc)
           = Some (replicate (k - 1) True @ [False], replicate (k - 1) True @ [True])
    \<and> map_option inclusivity (OpenStopRange start stop desc)
           = Some (replicate (k - 1) True @ [True], replicate (k - 1) True @ [False])
    \<and> map_option inclusivity (ClosedRange start stop desc)
           = Some (replicate (k - 1) True @ [True], replicate (k - 1) True @ [True])"
proof -
  have pos: "0 < length (Types desc)" using assms by simp
  have inc: "\<And>tup. map Inclusive (inclusiveBound tup desc) = replicate (k - 1) True @ [True]"
    using assms by (cases k) (simp_all add: inclusiveBound_flags replicate_append_same)
  obtain lo' where lo': "exclusiveBound start desc = Some lo'"
      "map Inclusive lo' = replicate (k - 1) True @ [False]"
    using exclusiveBound_flags [OF pos, of start] assms(1) by auto
  obtain hi' where hi': "exclusiveBound stop desc = Some hi'"
      "map Inclusive hi' = replicate (k - 1) True @ [False]"
    using exclusiveBound_flags [OF pos, of stop] assms(1) by auto
  have 1: "map_option inclusivity (GreaterRange start desc) = Some (replicate (k - 1) True @ [False], [])"
    by (simp add: GreaterRange_def inclusivity_def lo')
  have 2: "map_option inclusivity (GreaterOrEqualRange start desc) = Some (replicate (k - 1) True @ [True], [])"
    by (simp add: GreaterOrEqualRange_def inclusivity_def inc)
  have 3: "map_option inclusivity (LesserRange stop desc) = Some ([], replicate (k - 1) True @ [False])"
    by (simp add: LesserRange_def inclusivity_def hi')
  have 4: "map_option inclusivity (LesserOrEqualRange stop desc) = Some ([], replicate (k - 1) True @ [True])"
    by (simp add: LesserOrEqualRange_def inclusivity_def inc)
  have 5: "map_option inclusivity (OpenRange start stop desc)
           = Some (replicate (k - 1) True @ [False], replicate (k - 1) True @ [False])"
    by (simp add: OpenRange_def inclusivity_def lo' hi')
  have 6: "map_option inclusivity (OpenStartRange start stop desc)
           = Some (replicate (k - 1) True @ [False], replicate (k - 1) True @ [True])"
    by (simp add: OpenStartRange_def inclusivity_def lo' inc)
  have 7: "map_option inclusivity (OpenStopRange start stop desc)
           = Some (replicate (k - 1) True @ [True], replicate (k - 1) True @ [False])"
    by (simp add: OpenStopRange_def inclusivity_def hi' inc)
  have 8: "map_option inclusivity (ClosedRange start stop desc)
           = Some (replicate (k - 1) True @ [True], replicate (k - 1) True @ [True])"
    by (simp add: ClosedRange_def inclusivity_def inc)
  show ?thesis using 1 2 3 4 5 6 7 8 by (intro conjI)
qed

text \<open>Claim C5 at a descriptor with three columns.\<close>

theorem constructors_mark_inclusivity_witness:
  "map_option inclusivity (GreaterRange (tupleOf [Some [1], Some [2], Some [3]]) (bytewiseDesc [byteType, byteType, byteType]))
      = Some ([True, True, False], [])
   \<and> map_option inclusivity (OpenStartRange (tupleOf [Some [1], Some [2], Some [3]]) (tupleOf [Some [4], Some [5], Some [6]])
        (bytewiseDesc [byteType, byteType, byteType]))
      = Some ([True, True, False], [True, True, True])
   \<and> map_option inclusivity (ClosedRange (tupleOf [Some [1], Some [2], Some [3]]) (tupleOf [Some [4], Some [5], Some [6]])
        (bytewiseDesc [byteType, byteType, byteType]))
      = Some ([True, True, True], [True, True, True])"
proof -
  have k: "length (Types (bytewiseDesc [byteType, byteType, byteType])) = 3" "0 < (3::nat)"
    by (simp_all add: bytewiseDesc_def)
  have r: "replicate (3 - 1) True @ [b] = [True, True, b]" for b
    by (simp add: numeral_2_eq_2)
  from constructors_mark_inclusivity [OF k, unfolded r,
      of "tupleOf [Some [1], Some [2], Some [3]]" "tupleOf [Some [4], Some [5], Some [6]]"]
  show ?thesis by blast
qed

section \<open>Properties of the spatial ranges\<close>








section \<open>Properties of the node builder\<close>

lemma readCounts_putUvarint:
  "readCounts m acc (putUvarint n @ rest)
     = map_option ((#) (of_nat (acc + n * m))) (readCounts 1 0 rest)"
proof (induction n arbitrary: m acc rule: putUvarint.induct)
  case (1 n)
  show ?case
  proof (cases "n < 128")
    case True
    then have "unat (of_nat n :: byte) = n" by (simp add: unat_of_nat)
    with True show ?thesis by (subst putUvarint.simps) simp
  next
    case False
    have "unat (of_nat (n mod 128 + 128) :: byte) = (n mod 128 + 128) mod 2 ^ LENGTH(8)"
      by (rule unat_of_nat)
    moreover have "n mod 128 + 128 < 256" by simp
    ultimately have u: "unat (of_nat (n mod 128 + 128) :: byte) = n mod 128 + 128"
      by simp
    have "readCounts m acc (putUvarint n @ rest)
        = readCounts (m * 128) (acc + (n mod 128) * m) (putUvarint (n div 128) @ rest)"
      using False u by (subst putUvarint.simps) simp
    also have "\<dots> = map_option ((#) (of_nat (acc + (n mod 128) * m + (n div 128) * (m * 128))))
        (readCounts 1 0 rest)"
      using 1 [OF False] by simp
    also have "acc + (n mod 128) * m + (n div 128) * (m * 128) = acc + n * m"
    proof -
      have "(n mod 128) * m + (n div 128) * (m * 128) = (n mod 128 + (n div 128) * 128) * m"
        by (simp only: add_mult_distrib add_mult_distrib2 mult_ac)
      also have "n mod 128 + (n div 128) * 128 = n" by presburger
      finally show ?thesis by simp
    qed
    finally show ?thesis .
  qed
qed

lemma decode_writeCountArray: "decodeCountArray (writeCountArray counts) = Some counts"
proof -
  have "readCounts 1 0 (writeCountArray counts) = Some counts"
  proof (induction counts)
    case Nil
    show ?case by (simp add: writeCountArray_def)
  next
    case (Cons c cs)
    have "readCounts 1 0 (writeCountArray (c # cs))
        = readCounts 1 0 (putUvarint (unat c) @ writeCountArray cs)"
      by (simp add: writeCountArray_def)
    also have "\<dots> = map_option ((#) (of_nat (0 + unat c * 1))) (readCounts 1 0 (writeCountArray cs))"
      by (rule readCounts_putUvarint)
    finally show ?case using Cons by simp
  qed
  then show ?thesis by (simp add: decodeCountArray_def)
qed

lemma Sum_sum_list: "Sum sc = sum_list sc"
proof -
  have "foldl (+) a sc = a + sum_list sc" for a :: "64 word"
    by (induction sc arbitrary: a) (simp_all add: add.assoc)
  from this [of 0] show ?thesis by (simp add: Sum_def)
qed

lemma unat_sum_list: "unat (sum_list (sc :: 64 word list)) = sum_list (map unat sc) mod 2 ^ 64"
proof (induction sc)
  case Nil
  show ?case by simp
next
  case (Cons c cs)
  have "unat (c + sum_list cs) = (unat c + unat (sum_list cs)) mod 2 ^ 64"
    by (simp add: unat_word_ariths)
  also have "\<dots> = (unat c + sum_list (map unat cs) mod 2 ^ 64) mod 2 ^ 64"
    by (simp only: Cons)
  also have "\<dots> = (unat c + sum_list (map unat cs)) mod 2 ^ 64"
    by (simp add: mod_add_right_eq)
  finally show ?case by simp
qed

lemma addAll_fields:
  "keys (addAll nb items) = keys nb @ map fst items"
  "subtrees (addAll nb items) = subtrees nb @ map (\<lambda>x. snd (snd x)) items"
  "level (addAll nb items) = level nb"
  by (induction nb items rule: addAll.induct) (simp_all add: AddItems_def)


lemma treeLevel_zero_iff:
  assumes "0 \<le> l" "l < 256"
  shows "((word_of_int l :: 8 word) = 0) = (l = 0)"
proof -
  have "uint (word_of_int l :: 8 word) = l mod 2 ^ LENGTH(8)" by (rule uint_word_of_int)
  then have "uint (word_of_int l :: 8 word) = l" using assms by simp
  then show ?thesis by (auto simp add: word_uint_eq_iff)
qed

text \<open>
  Claim C6. Every node that the builder emits, after any run of \<open>AddItems\<close> calls on a
  builder that was started, satisfies the tree-count invariant: at level 0 its tree count is
  its key count; above level 0 its serialised subtree counts are one varint for each key
  and their sum (in \<open>uint64\<close>) is its tree count. The level of the builder is between 0 and
  255, so that the \<open>uint8\<close> tree level of the node is the level of the builder.
\<close>

theorem build_treeCount_invariant:
  assumes "0 \<le> level nb" and "level nb < 256"
  shows "treeCountInvariant (fst (Build (addAll (StartNode nb) items)))
    \<and> nodeCount (fst (Build (addAll (StartNode nb) items))) = length items
    \<and> uint (treeLevel (fst (Build (addAll (StartNode nb) items)))) = level nb
    \<and> (if level nb = 0 \<and> length items < 2 ^ 64
        then unat (treeCount (fst (Build (addAll (StartNode nb) items)))) = length items
        else True)"
proof -
  let ?b = "addAll (StartNode nb) items"
  let ?n = "fst (Build ?b)"
  have k: "keys ?b = map fst items" and s: "subtrees ?b = map (\<lambda>x. snd (snd x)) items"
    and l: "level ?b = level nb"
    by (simp_all add: addAll_fields StartNode_def reset_def)
  have cnt: "nodeCount ?n = length items"
    by (simp add: Build_def Let_def nodeCount_def k)
  have lvl: "treeLevel ?n = word_of_int (level nb)"
    by (simp add: Build_def Let_def l)
  have "uint (word_of_int (level nb) :: 8 word) = level nb mod 2 ^ LENGTH(8)"
    by (rule uint_word_of_int)
  then have ul: "uint (treeLevel ?n) = level nb" using assms lvl by simp
  have inv: "treeCountInvariant ?n"
  proof (cases "level nb = 0")
    case True
    then show ?thesis
      by (simp add: treeCountInvariant_def Build_def Let_def l nodeCount_def)
  next
    case False
    then have pos: "level nb > 0" using assms(1) by simp
    have nz: "treeLevel ?n \<noteq> 0"
      using treeLevel_zero_iff [OF assms] False lvl by simp
    have sc: "subtreeCounts ?n = writeCountArray (subtrees ?b)"
      and tc: "treeCount ?n = Sum (subtrees ?b)"
      using pos by (simp_all add: Build_def Let_def l)
    show ?thesis
      using nz
      by (simp add: treeCountInvariant_def sc tc decode_writeCountArray Sum_sum_list
          unat_sum_list cnt s)
  qed
  have leaf: "unat (treeCount ?n) = length items" if "level nb = 0" "length items < 2 ^ 64"
  proof -
    have "treeCount ?n = of_nat (length items)"
      using that(1) by (simp add: Build_def Let_def l k)
    moreover have "unat (of_nat (length items) :: 64 word) = length items mod 2 ^ LENGTH(64)"
      by (rule unat_of_nat)
    ultimately show ?thesis using that(2) by simp
  qed
  show ?thesis using inv cnt ul leaf by simp
qed

text \<open>Claim C6 at an internal node with the subtree counts 3 and 300, and at a leaf
  with two keys.\<close>

theorem build_treeCount_invariant_witness:
  "treeCountInvariant (fst (Build (addAll (StartNode (newAddrMapBuilder 1)) [item 1 3, item 2 300])))
   \<and> treeCount (fst (Build (addAll (StartNode (newAddrMapBuilder 1)) [item 1 3, item 2 300]))) = 303
   \<and> subtreeCounts (fst (Build (addAll (StartNode (newAddrMapBuilder 1)) [item 1 3, item 2 300]))) = [3, 172, 2]
   \<and> treeCountInvariant (fst (Build (addAll (StartNode (newAddrMapBuilder 0)) [item 1 0, item 2 0])))
   \<and> treeCount (fst (Build (addAll (StartNode (newAddrMapBuilder 0)) [item 1 0, item 2 0]))) = 2"
proof -
  have l1: "0 \<le> level (newAddrMapBuilder 1)" "level (newAddrMapBuilder 1) < 256"
    and l0: "0 \<le> level (newAddrMapBuilder 0)" "level (newAddrMapBuilder 0) < 256"
    by (simp_all add: newAddrMapBuilder_def)
  have a: "treeCount (fst (Build (addAll (StartNode (newAddrMapBuilder 1)) [item 1 3, item 2 300]))) = 303"
    by (simp add: Build_def Let_def StartNode_def reset_def newAddrMapBuilder_def AddItems_def item_def Sum_def)
  have b: "subtreeCounts (fst (Build (addAll (StartNode (newAddrMapBuilder 1)) [item 1 3, item 2 300]))) = [3, 172, 2]"
    by (simp add: Build_def Let_def StartNode_def reset_def newAddrMapBuilder_def AddItems_def item_def
        writeCountArray_def putUvarint.simps)
  have c: "treeCount (fst (Build (addAll (StartNode (newAddrMapBuilder 0)) [item 1 0, item 2 0]))) = 2"
    by (simp add: Build_def Let_def StartNode_def reset_def newAddrMapBuilder_def AddItems_def item_def)
  show ?thesis
    using build_treeCount_invariant [OF l1, of "[item 1 3, item 2 300]"]
      build_treeCount_invariant [OF l0, of "[item 1 0, item 2 0]"] a b c
    by blast
qed

section \<open>Properties of the map chunk cache\<close>

lemma Put_lookup:
  "(hashToChunk (Put mcc chs) h = None)
     = (hashToChunk mcc h = None \<and> h \<notin> chunkHash ` set chs)"
proof (induction chs arbitrary: mcc)
  case Nil
  show ?case by simp
next
  case (Cons ch chs)
  show ?case
  proof (cases "hashToChunk mcc (chunkHash ch)")
    case None
    then show ?thesis by (auto simp add: Cons.IH PutChunk_def)
  next
    case (Some x)
    then show ?thesis by (auto simp add: Cons.IH PutChunk_def)
  qed
qed

lemma PutChunk_present:
  "hashToChunk mcc (chunkHash ch) \<noteq> None \<Longrightarrow> PutChunk mcc ch = (False, mcc)"
  by (auto simp add: PutChunk_def split: option.splits)

text \<open>
  Claim C4. After \<open>Put\<close> of a batch and \<open>GetAndClearChunksToFlush\<close>, a second
  \<open>GetAndClearChunksToFlush\<close> returns the empty map; \<open>PutChunk\<close> of a chunk that is present
  returns false and changes nothing, \<open>toFlush\<close> included, also for a chunk of the batch after
  the pending set was cleared; \<open>Has\<close> returns exactly the given hashes that \<open>Get\<close> does
  not find, and none of the hashes of a batch that was put.
\<close>

theorem map_chunk_cache_contract:
  "fst (GetAndClearChunksToFlush (snd (GetAndClearChunksToFlush (Put mcc chs)))) = Map.empty
   \<and> (if hashToChunk mcc (chunkHash ch) = None then fst (PutChunk mcc ch)
       else PutChunk mcc ch = (False, mcc))
   \<and> (\<forall>c \<in> set chs.
        PutChunk (snd (GetAndClearChunksToFlush (Put mcc chs))) c
          = (False, snd (GetAndClearChunksToFlush (Put mcc chs)))
        \<and> toFlush (snd (PutChunk (snd (GetAndClearChunksToFlush (Put mcc chs))) c)) = Map.empty)
   \<and> Has mcc hashes = {h \<in> hashes. Get mcc hashes h = None}
   \<and> Has (Put mcc chs) (chunkHash ` set chs) = {}"
proof -
  let ?after = "snd (GetAndClearChunksToFlush (Put mcc chs))"
  have 1: "fst (GetAndClearChunksToFlush ?after) = Map.empty"
    by (simp add: GetAndClearChunksToFlush_def)
  have 2: "if hashToChunk mcc (chunkHash ch) = None then fst (PutChunk mcc ch)
       else PutChunk mcc ch = (False, mcc)"
    by (auto simp add: PutChunk_def split: option.splits)
  have 3: "PutChunk ?after c = (False, ?after) \<and> toFlush (snd (PutChunk ?after c)) = Map.empty"
    if "c \<in> set chs" for c
  proof -
    have "hashToChunk (Put mcc chs) (chunkHash c) \<noteq> None"
      using that Put_lookup [of mcc chs "chunkHash c"] by auto
    then have "hashToChunk ?after (chunkHash c) \<noteq> None"
      by (simp add: GetAndClearChunksToFlush_def)
    then have "PutChunk ?after c = (False, ?after)" by (rule PutChunk_present)
    then show ?thesis by (simp add: GetAndClearChunksToFlush_def)
  qed
  have 4: "Has mcc hashes = {h \<in> hashes. Get mcc hashes h = None}"
    by (auto simp add: Has_def Get_def)
  have 5: "Has (Put mcc chs) (chunkHash ` set chs) = {}"
    by (auto simp add: Has_def Put_lookup)
  show ?thesis using 1 2 3 4 5 by blast
qed

text \<open>Claim C4 at the empty cache and a batch of two chunks.\<close>

theorem map_chunk_cache_contract_witness:
  "fst (GetAndClearChunksToFlush (snd (GetAndClearChunksToFlush
      (Put newMapChunkCache [chunkOf 1, chunkOf 2])))) = Map.empty
   \<and> PutChunk (Put newMapChunkCache [chunkOf 1, chunkOf 2]) (chunkOf 1)
       = (False, Put newMapChunkCache [chunkOf 1, chunkOf 2])
   \<and> fst (PutChunk (Put newMapChunkCache [chunkOf 1, chunkOf 2]) (chunkOf 3))
   \<and> PutChunk (snd (GetAndClearChunksToFlush (Put newMapChunkCache [chunkOf 1, chunkOf 2]))) (chunkOf 2)
       = (False, snd (GetAndClearChunksToFlush (Put newMapChunkCache [chunkOf 1, chunkOf 2])))
   \<and> Has (Put newMapChunkCache [chunkOf 1, chunkOf 2]) {chunkHash (chunkOf 1), chunkHash (chunkOf 2)} = {}"
proof -
  let ?c = "Put newMapChunkCache [chunkOf 1, chunkOf 2]"
  have p1: "hashToChunk ?c (chunkHash (chunkOf 1)) \<noteq> None"
    by (simp add: newMapChunkCache_def PutChunk_def chunkOf_def)
  have p3: "hashToChunk ?c (chunkHash (chunkOf 3)) = None"
    by (simp add: newMapChunkCache_def PutChunk_def chunkOf_def)
  have s: "chunkHash ` set [chunkOf 1, chunkOf 2] = {chunkHash (chunkOf 1), chunkHash (chunkOf 2)}"
    by simp
  have m: "chunkOf 2 \<in> set [chunkOf 1, chunkOf 2]" by simp
  note T = map_chunk_cache_contract [of newMapChunkCache "[chunkOf 1, chunkOf 2]" "chunkOf 1" "{}"]
  note T1 = map_chunk_cache_contract [of ?c "[]" "chunkOf 1" "{}"]
  note T3 = map_chunk_cache_contract [of ?c "[]" "chunkOf 3" "{}"]
  have a: "fst (GetAndClearChunksToFlush (snd (GetAndClearChunksToFlush ?c))) = Map.empty"
    using T by (rule conjunct1)
  have b: "PutChunk ?c (chunkOf 1) = (False, ?c)"
    using T1 [THEN conjunct2, THEN conjunct1] p1 by (simp only: if_False)
  have c: "fst (PutChunk ?c (chunkOf 3))"
    using T3 [THEN conjunct2, THEN conjunct1] p3 by (simp only: if_True)
  have d: "PutChunk (snd (GetAndClearChunksToFlush ?c)) (chunkOf 2)
       = (False, snd (GetAndClearChunksToFlush ?c))"
    using T [THEN conjunct2, THEN conjunct2, THEN conjunct1] m by blast
  have e: "Has ?c {chunkHash (chunkOf 1), chunkHash (chunkOf 2)} = {}"
    using T [THEN conjunct2, THEN conjunct2, THEN conjunct2, THEN conjunct2] unfolding s .
  show ?thesis using a b c d e by (intro conjI)
qed

section \<open>Properties of the address map\<close>

lemma bytesCompare_eq_0: "(bytesCompare a b = 0) = (a = b)"
  by (induction a b rule: bytesCompare.induct) auto

lemma find_absent:
  "name \<notin> fst ` set es \<Longrightarrow> List.find (\<lambda>kv. lexicographic_Compare (fst kv) name = 0) es = None"
  by (induction es) (auto simp add: lexicographic_Compare_def bytesCompare_eq_0)

lemma find_present:
  "distinct (map fst es) \<Longrightarrow> (name, a) \<in> set es \<Longrightarrow>
     List.find (\<lambda>kv. lexicographic_Compare (fst kv) name = 0) es = Some (name, a)"
  by (induction es) (auto simp add: lexicographic_Compare_def bytesCompare_eq_0 rev_image_eqI)

text \<open>
  Claim C10. For a name that is not in the map, and a store that does not fail, \<open>Get\<close>
  returns the zero hash and a \<open>nil\<close> error. So it does for a name that is bound to the
  zero hash: the result for an absent name is not set apart from it by any error.
\<close>

theorem address_map_get_absent:
  assumes "readFailure (addresses c) = None"
  shows "(if name \<in> fst ` set (entries (addresses c)) then True
          else AddressMap_Get c name = Some (zeroHash, None))
    \<and> (if distinct (map fst (entries (addresses c))) \<and> (name, zeroHash) \<in> set (entries (addresses c))
        then AddressMap_Get c name = Some (zeroHash, None) else True)"
proof -
  have 1: "AddressMap_Get c name = Some (zeroHash, None)"
    if "name \<notin> fst ` set (entries (addresses c))"
    using assms find_absent [OF that]
    by (simp add: AddressMap_Get_def tree_get_def)
  have 2: "AddressMap_Get c name = Some (zeroHash, None)"
    if "distinct (map fst (entries (addresses c)))" "(name, zeroHash) \<in> set (entries (addresses c))"
    using assms find_present [OF that]
    by (simp add: AddressMap_Get_def tree_get_def hash_New_def sliceBytes_def zeroHash_def)
  show ?thesis using 1 2 by simp
qed

text \<open>Claim C10 at the example map: the name \<open>dsC\<close> is absent, the name \<open>dsB\<close> is bound
  to the zero hash, the name \<open>dsA\<close> to another one.\<close>

theorem address_map_get_absent_witness:
  "AddressMap_Get exampleAddressMap [100, 115, 67] = Some (zeroHash, None)
   \<and> AddressMap_Get exampleAddressMap [100, 115, 66] = Some (zeroHash, None)
   \<and> AddressMap_Get exampleAddressMap [100, 115, 65] = Some (replicate 20 170, None)"
proof -
  have r: "readFailure (addresses exampleAddressMap) = None"
    by (simp add: exampleAddressMap_def)
  have a: "[100, 115, 67] \<notin> fst ` set (entries (addresses exampleAddressMap))"
    by (simp add: exampleAddressMap_def)
  have b: "distinct (map fst (entries (addresses exampleAddressMap)))
      \<and> ([100, 115, 66], zeroHash) \<in> set (entries (addresses exampleAddressMap))"
    by (simp add: exampleAddressMap_def zeroHash_def)
  have c: "AddressMap_Get exampleAddressMap [100, 115, 65] = Some (replicate 20 170, None)"
    by (simp add: exampleAddressMap_def AddressMap_Get_def tree_get_def lexicographic_Compare_def
        hash_New_def sliceBytes_def)
  have d: "AddressMap_Get exampleAddressMap [100, 115, 67] = Some (zeroHash, None)"
    using address_map_get_absent [OF r, of "[100, 115, 67]", THEN conjunct1] a by (simp only: if_False)
  have e: "AddressMap_Get exampleAddressMap [100, 115, 66] = Some (zeroHash, None)"
    using address_map_get_absent [OF r, of "[100, 115, 66]", THEN conjunct2] b by (simp only: if_True)
  show ?thesis using c d e by (intro conjI)
qed

section \<open>Properties of the archive build pass\<close>

lemma Add_new_group:
  "remdups (x # y # concat (filter (\<lambda>g. x \<in> set g \<or> y \<in> set g) groups))
     \<in> set (ChunkRelations_Add groups x y)"
  by (simp only: ChunkRelations_Add_def list.set insertI1)

lemma Add_new_group_set:
  "set (remdups (x # y # concat (filter (\<lambda>g. x \<in> set g \<or> y \<in> set g) groups)))
     = {x, y} \<union> \<Union> (set ` {g \<in> set groups. x \<in> set g \<or> y \<in> set g})"
  by (simp only: set_remdups) auto

lemma related_Add_mono:
  assumes "related groups a b"
  shows "related (ChunkRelations_Add groups x y) a b"
proof -
  from assms obtain g where g: "g \<in> set groups" "a \<in> set g" "b \<in> set g"
    by (auto simp add: related_def)
  let ?new = "remdups (x # y # concat (filter (\<lambda>g. x \<in> set g \<or> y \<in> set g) groups))"
  show ?thesis
  proof (cases "x \<in> set g \<or> y \<in> set g")
    case True
    then have "a \<in> set ?new" "b \<in> set ?new"
      using g unfolding Add_new_group_set by blast+
    then show ?thesis
      unfolding related_def using Add_new_group [of x y groups] by blast
  next
    case False
    then have "g \<in> set (filter (\<lambda>g. x \<notin> set g \<and> y \<notin> set g) groups)" using g by simp
    then have "g \<in> set (ChunkRelations_Add groups x y)"
      by (simp only: ChunkRelations_Add_def list.set insert_iff) blast
    then show ?thesis
      unfolding related_def using g(2,3) by blast
  qed
qed

lemma related_Add: "related (ChunkRelations_Add groups x y) x y"
proof -
  let ?new = "remdups (x # y # concat (filter (\<lambda>g. x \<in> set g \<or> y \<in> set g) groups))"
  have "x \<in> set ?new" "y \<in> set ?new" unfolding Add_new_group_set by blast+
  then show ?thesis
    unfolding related_def using Add_new_group [of x y groups] by blast
qed

lemma addAllDiffs_related:
  "(related groups a b \<longrightarrow> related (addAllDiffs groups diffs) a b)
   \<and> ((a, b) \<in> set diffs \<longrightarrow> related (addAllDiffs groups diffs) a b)"
proof (induction diffs arbitrary: groups)
  case Nil
  show ?case by simp
next
  case (Cons d diffs)
  obtain x y where d: "d = (x, y)" by (cases d)
  show ?case
    using Cons.IH [of "ChunkRelations_Add groups x y"] related_Add_mono [of groups a b x y]
      related_Add [of groups x y]
    by (auto simp add: d)
qed

lemma deltaLoop_related:
  assumes "deltaLoop groups deltas = (err, groups')"
  shows "(related groups a b \<longrightarrow> related groups' a b)
    \<and> (err = None \<longrightarrow> (\<forall>delta \<in> set deltas. walked delta \<longrightarrow> (a, b) \<in> set (addrDiffs delta)
          \<longrightarrow> related groups' a b))"
  using assms
proof (induction deltas arbitrary: groups)
  case Nil
  then show ?case by simp
next
  case (Cons delta deltas)
  show ?case
  proof (cases "walked delta")
    case True
    then have w: "HasSchemaChanged delta = Inr False" "HasPrimaryKeySetChanged delta = False"
      "HasDataChanged delta = Inr True" "fromLevel delta = toLevel delta"
      by (simp_all add: walked_def dataChangedOnly_def)
    let ?g = "addAllDiffs groups (addrDiffs delta)"
    note A = addAllDiffs_related [of groups a b "addrDiffs delta"]
    show ?thesis
    proof (cases "walkError delta")
      case None
      then have "deltaLoop ?g deltas = (err, groups')"
        using Cons.prems w by (simp add: Let_def)
      from Cons.IH [OF this] A show ?thesis by auto
    next
      case (Some e)
      then have "err = Some e" "groups' = ?g"
        using Cons.prems w by (simp_all add: Let_def)
      then show ?thesis using A by simp
    qed
  next
    case False
    have "(err \<noteq> None \<and> groups' = groups) \<or> deltaLoop groups deltas = (err, groups')"
      using Cons.prems False
      by (auto simp add: walked_def dataChangedOnly_def Let_def split: sum.splits if_splits)
    then show ?thesis
    proof
      assume "err \<noteq> None \<and> groups' = groups"
      then show ?thesis by auto
    next
      assume "deltaLoop groups deltas = (err, groups')"
      from Cons.IH [OF this] False show ?thesis by auto
    qed
  qed
qed

lemma parentLoop_related:
  assumes "parentLoop groups ps = (err, groups')"
  shows "(related groups a b \<longrightarrow> related groups' a b)
    \<and> (err = None \<longrightarrow> (\<forall>p \<in> set ps. \<forall>deltas. GetTableDeltas p = Inr deltas \<longrightarrow>
          (\<forall>delta \<in> set deltas. walked delta \<longrightarrow> (a, b) \<in> set (addrDiffs delta)
            \<longrightarrow> related groups' a b)))"
  using assms
proof (induction ps arbitrary: groups)
  case Nil
  then show ?case by simp
next
  case (Cons p ps)
  show ?case
  proof (cases "GetParentError p = None \<and> parentExists p \<and> parentRootValueError p = None
      \<and> (\<exists>deltas. GetTableDeltas p = Inr deltas)")
    case False
    have "\<exists>e. parentLoop groups (p # ps) = (Some e, groups)"
    proof (cases "GetParentError p")
      case (Some e)
      then show ?thesis by simp
    next
      case None
      note n1 = this
      show ?thesis
      proof (cases "parentExists p")
        case False
        then show ?thesis using n1 by simp
      next
        case True
        note n2 = this
        show ?thesis
        proof (cases "parentRootValueError p")
          case (Some e)
          then show ?thesis using n1 n2 by simp
        next
          case None
          then obtain e where "GetTableDeltas p = Inl e"
            using \<open>\<not> (GetParentError p = None \<and> parentExists p \<and> parentRootValueError p = None
                \<and> (\<exists>deltas. GetTableDeltas p = Inr deltas))\<close> n1 n2
            by (cases "GetTableDeltas p") auto
          then show ?thesis using n1 n2 None by simp
        qed
      qed
    qed
    then obtain e where "(err, groups') = (Some e, groups)" using Cons.prems by auto
    then have "err \<noteq> None \<and> groups' = groups" by simp
    then show ?thesis by auto
  next
    case True
    then obtain deltas where p: "GetParentError p = None" "parentExists p"
      "parentRootValueError p = None" "GetTableDeltas p = Inr deltas"
      by blast
    obtain e1 g1 where dl: "deltaLoop groups deltas = (e1, g1)" by (cases "deltaLoop groups deltas")
    note D = deltaLoop_related [OF dl, of a b]
    show ?thesis
    proof (cases e1)
      case (Some e)
      then have "err = Some e" "groups' = g1" using Cons.prems p dl by simp_all
      then show ?thesis using D by simp
    next
      case None
      then have "parentLoop g1 ps = (err, groups')" using Cons.prems p dl by simp
      from Cons.IH [OF this] D None p(4) show ?thesis by auto
    qed
  qed
qed


text \<open>
  Claim C3, as amended. When the pass over a commit returns no error, then for every parent
  of the commit and every table delta between them whose schema is unchanged, whose
  primary key set is unchanged, whose row data has changed and whose two row maps have
  their root nodes at the same level, every pair of addresses that the walk
  \<open>ChunkAddressDiffOrderedTrees\<close> reports on the two row maps is in one group of the
  \<open>ChunkRelations\<close> structure afterwards.
\<close>

theorem relate_commit_unions_walked_pairs:
  assumes "relateCommitToParentChunks db commit groupings = (None, groupings')"
    and "db commit = IsCommit cmt"
    and "p \<in> set (commitParents cmt)"
    and "GetTableDeltas p = Inr deltas"
    and "delta \<in> set deltas"
    and "walked delta"
    and "(a, b) \<in> set (addrDiffs delta)"
  shows "related groupings' a b"
proof -
  have "rootValueError cmt = None"
    using assms(1,2) by (cases "rootValueError cmt") (simp_all add: relateCommitToParentChunks_def)
  then have "parentLoop groupings (commitParents cmt) = (None, groupings')"
    using assms(1,2) by (simp add: relateCommitToParentChunks_def)
  from parentLoop_related [OF this, of a b] assms(3-7) show ?thesis by blast
qed

text \<open>Claim C3 as amended, at a commit with one parent and one table whose row maps are
  both of level 1: the three pairs that the walk reports make two groups, of five
  addresses in all.\<close>

theorem relate_commit_unions_walked_pairs_witness:
  "relateCommitToParentChunks
      (oneParentDb [changedDelta 1 1
        [(addressOf 1, addressOf 2), (addressOf 2, addressOf 3), (addressOf 4, addressOf 5)]])
      (addressOf 9) NewChunkRelations
     = (None, [[addressOf 4, addressOf 5], [addressOf 3, addressOf 1, addressOf 2]])
   \<and> related [[addressOf 4, addressOf 5], [addressOf 3, addressOf 1, addressOf 2]] (addressOf 2) (addressOf 3)
   \<and> ChunkRelations_Count [[addressOf 4, addressOf 5], [addressOf 3, addressOf 1, addressOf 2]] = 5"
proof -
  let ?diffs = "[(addressOf 1, addressOf 2), (addressOf 2, addressOf 3), (addressOf 4, addressOf 5)]"
  let ?delta = "changedDelta 1 1 ?diffs"
  let ?p = "\<lparr>GetParentError = None, parentExists = True,
             parentRootValueError = None, GetTableDeltas = Inr [?delta]\<rparr>"
  let ?g = "[[addressOf 4, addressOf 5], [addressOf 3, addressOf 1, addressOf 2]]"
  have run: "relateCommitToParentChunks (oneParentDb [?delta]) (addressOf 9) NewChunkRelations = (None, ?g)"
    by (simp add: relateCommitToParentChunks_def oneParentDb_def changedDelta_def NewChunkRelations_def
        ChunkRelations_Add_def addressOf_def Let_def)
  have db: "oneParentDb [?delta] (addressOf 9)
      = IsCommit \<lparr>rootValueError = None, commitParents = [?p]\<rparr>"
    by (simp add: oneParentDb_def)
  have p: "?p \<in> set (commitParents \<lparr>rootValueError = None, commitParents = [?p]\<rparr>)" by simp
  have d: "GetTableDeltas ?p = Inr [?delta]" by simp
  have w: "walked ?delta" by (simp add: walked_def dataChangedOnly_def changedDelta_def)
  have m: "(addressOf 2, addressOf 3) \<in> set (addrDiffs ?delta)" by (simp add: changedDelta_def)
  have "related ?g (addressOf 2) (addressOf 3)"
    by (rule relate_commit_unions_walked_pairs [OF run db p d _ w m]) simp
  moreover have "ChunkRelations_Count ?g = 5" by (simp add: ChunkRelations_Count_def)
  ultimately show ?thesis using run by (intro conjI)
qed

text \<open>
  Claim C3 as stated fails at a table whose two row maps have root nodes of different
  levels: the code skips the walk for it (the guard \<open>f.Node().Level() != t.Node().Level()\<close>),
  and the pair that the walk would report is not unioned.
\<close>

theorem relate_commit_level_guard_counterexample:
  "dataChangedOnly (changedDelta 0 1 [(addressOf 1, addressOf 2)])
   \<and> relateCommitToParentChunks (oneParentDb [changedDelta 0 1 [(addressOf 1, addressOf 2)]])
        (addressOf 9) NewChunkRelations = (None, [])
   \<and> \<not> related [] (addressOf 1) (addressOf 2)"
  by (simp add: relateCommitToParentChunks_def oneParentDb_def changedDelta_def NewChunkRelations_def
      dataChangedOnly_def related_def)

section \<open>Properties of the root of a chunk store\<close>

text \<open>
  Claim C8, as amended. \<open>Commit(new, expected)\<close> returns true and sets the root to \<open>new\<close>
  when the root is \<open>expected\<close>, and returns false and leaves the store as it is otherwise.
  Of two concurrent calls whose expected root is the current root and whose new roots
  differ from it, in either order exactly one returns true, and the root is the new root
  of that call. When \<open>runRoot\<close> reaches \<open>Commit\<close> and the store no longer has the root that
  \<open>runRoot\<close> read, it reports the optimistic concurrency failure, returns 1 and leaves the
  root unchanged.
\<close>

theorem commit_is_compare_and_swap:
  assumes "root cs = r0" and "new1 \<noteq> r0" and "new2 \<noteq> r0"
    and "reachesCommit env" and "MaybeParse env (if hd (updateRoot env) = CHR ''#''
           then tl (updateRoot env) else updateRoot env) = Some h"
    and "root csAtCommit \<noteq> root csAtRoot"
  shows "Commit cs new expected
      = (root cs = expected, if root cs = expected then cs\<lparr>root := new\<rparr> else cs)
    \<and> concurrentCommits FirstThenSecond cs (new1, r0) (new2, r0) = (True, False, cs\<lparr>root := new1\<rparr>)
    \<and> concurrentCommits SecondThenFirst cs (new1, r0) (new2, r0) = (False, True, cs\<lparr>root := new2\<rparr>)
    \<and> runRoot env csAtRoot csAtCommit
      = (Returned 1, [Warning, OptimisticConcurrencyFailure], csAtCommit)"
proof -
  have 1: "Commit cs new expected
      = (root cs = expected, if root cs = expected then cs\<lparr>root := new\<rparr> else cs)"
    by (simp add: Commit_def)
  have 2: "concurrentCommits FirstThenSecond cs (new1, r0) (new2, r0) = (True, False, cs\<lparr>root := new1\<rparr>)"
    using assms(1,2) by (simp add: concurrentCommits_def Commit_def)
  have 3: "concurrentCommits SecondThenFirst cs (new1, r0) (new2, r0) = (False, True, cs\<lparr>root := new2\<rparr>)"
    using assms(1,3) by (simp add: concurrentCommits_def Commit_def)
  have c: "Commit csAtCommit h (Root csAtRoot) = (False, csAtCommit)"
    using assms(6) by (simp add: Commit_def Root_def)
  have 4: "runRoot env csAtRoot csAtCommit
      = (Returned 1, [Warning, OptimisticConcurrencyFailure], csAtCommit)"
    using assms(4,5) c
    by (auto simp add: runRoot_def reachesCommit_def Let_def)
  show ?thesis using 1 2 3 4 by (intro conjI)
qed


text \<open>Claim C8 as amended, at a store with the root 0, two calls with the new roots 1 and
  2, and a run of the command that read the root 0 and meets the root 2.\<close>

theorem commit_is_compare_and_swap_witness:
  "concurrentCommits FirstThenSecond \<lparr>root = addressOf 0\<rparr> (addressOf 1, addressOf 0) (addressOf 2, addressOf 0)
      = (True, False, \<lparr>root = addressOf 1\<rparr>)
   \<and> concurrentCommits SecondThenFirst \<lparr>root = addressOf 0\<rparr> (addressOf 1, addressOf 0) (addressOf 2, addressOf 0)
      = (False, True, \<lparr>root = addressOf 2\<rparr>)
   \<and> runRoot (updatingEnv (addressOf 1)) \<lparr>root = addressOf 0\<rparr> \<lparr>root = addressOf 2\<rparr>
      = (Returned 1, [Warning, OptimisticConcurrencyFailure], \<lparr>root = addressOf 2\<rparr>)"
proof -
  have a: "root \<lparr>root = addressOf 0\<rparr> = addressOf 0" "addressOf 1 \<noteq> addressOf 0" "addressOf 2 \<noteq> addressOf 0"
    by (simp_all add: addressOf_def)
  have b: "reachesCommit (updatingEnv (addressOf 1))"
    by (simp add: reachesCommit_def updatingEnv_def)
  have c: "MaybeParse (updatingEnv (addressOf 1))
      (if hd (updateRoot (updatingEnv (addressOf 1))) = CHR ''#''
       then tl (updateRoot (updatingEnv (addressOf 1))) else updateRoot (updatingEnv (addressOf 1)))
      = Some (addressOf 1)"
    by (simp add: updatingEnv_def)
  have d: "root \<lparr>root = addressOf 2\<rparr> \<noteq> root \<lparr>root = addressOf 0\<rparr>"
    by (simp add: addressOf_def)
  from commit_is_compare_and_swap [OF a b c d, of "addressOf 1" "addressOf 0"]
  show ?thesis by simp
qed

text \<open>
  Claim C8 as stated fails when a new root is the expected root: the first call leaves
  the root as it was, and the second call returns true as well. So it does when the
  expected root is not the current root: both calls return false.
\<close>

theorem commit_same_root_counterexample:
  "concurrentCommits FirstThenSecond \<lparr>root = addressOf 0\<rparr> (addressOf 0, addressOf 0) (addressOf 0, addressOf 0)
      = (True, True, \<lparr>root = addressOf 0\<rparr>)
   \<and> concurrentCommits SecondThenFirst \<lparr>root = addressOf 0\<rparr> (addressOf 0, addressOf 0) (addressOf 0, addressOf 0)
      = (True, True, \<lparr>root = addressOf 0\<rparr>)
   \<and> concurrentCommits FirstThenSecond \<lparr>root = addressOf 0\<rparr> (addressOf 1, addressOf 3) (addressOf 2, addressOf 3)
      = (False, False, \<lparr>root = addressOf 0\<rparr>)"
  by (simp add: concurrentCommits_def Commit_def addressOf_def)

section \<open>Examples of the spatial ranges\<close>



section \<open>Single-column ranges outside the closed intervals\<close>

text \<open>
  Why the amended claim C2 keeps to inclusive value cuts and to a start not above the
  stop. \<open>RangeCut.less\<close> calls two cuts with equal values less than each other unless both
  are inclusive, so the merge of \<open>(2,6]\<close> and \<open>[2,5]\<close> takes the exclusive start and loses
  the tuple 2. An empty range between two others, or a range with a non-binding start,
  which \<open>less\<close> calls less than nothing and nothing less than, can separate two ranges
  that overlap, and they are returned unmerged.
\<close>

lemma merge_exclusive_start_example:
  "MergeOverlappingRanges insertionSort
      [range1 (valueCut 2 False) (valueCut 6 True), range1 (valueCut 2 True) (valueCut 5 True)]
     = Some [range1 (valueCut 2 False) (valueCut 6 True)]
   \<and> admits (range1 (valueCut 2 True) (valueCut 5 True)) (tupleOf [Some [2]])
   \<and> \<not> admits (range1 (valueCut 2 False) (valueCut 6 True)) (tupleOf [Some [2]])"
  by (simp add: range_eval range1_def admits_def AboveStart_def BelowStop_def tupleOf_def GetField_def)

lemma merge_empty_range_example:
  "MergeOverlappingRanges insertionSort [interval1 3 10, interval1 5 1, interval1 6 7]
     = Some [interval1 3 10, interval1 5 1, interval1 6 7]
   \<and> overlaps (interval1 3 10) (interval1 6 7) = Some True
   \<and> admits (interval1 3 10) (tupleOf [Some [6]]) \<and> admits (interval1 6 7) (tupleOf [Some [6]])"
  by (simp add: range_eval admits_def AboveStart_def BelowStop_def tupleOf_def GetField_def)

lemma merge_unbound_start_example:
  "MergeOverlappingRanges insertionSort
      [interval1 5 10, range1 unboundCut (valueCut 0 True), interval1 1 7]
     = Some [interval1 5 10, range1 unboundCut (valueCut 0 True), interval1 1 7]
   \<and> overlaps (interval1 5 10) (interval1 1 7) = Some True"
  by (simp add: range_eval range1_def unboundCut_def)

end
